theory Spec2Isabelle
  imports Complex_Main "HOL-Library.Word" "HOL-Library.Sublist"
begin

section \<open>Numeric types of the scenarios\<close>

text \<open>
  The C++ type \<open>double\<close>. A finite value is modelled by the rational number it
  denotes; the two infinities and NaN are kept as values of their own, since the
  library parser and the arithmetic can produce them. The arithmetic operations
  below are exact: their rounding to binary64 and the sign of zero are outside the
  model. The parser \<open>stod\<close> does round the number it reads to the nearest binary64
  value, since this rounding decides which values a text gives back.
\<close>

datatype double = Finite rat | Infinity bool | NaN

text \<open>\<open>Infinity neg\<close>: the flag is \<open>True\<close> for the negative infinity.\<close>

fun dadd :: "double \<Rightarrow> double \<Rightarrow> double" where
  "dadd (Finite a) (Finite b) = Finite (a + b)"
| "dadd NaN _ = NaN"
| "dadd _ NaN = NaN"
| "dadd (Infinity s) (Finite _) = Infinity s"
| "dadd (Finite _) (Infinity t) = Infinity t"
| "dadd (Infinity s) (Infinity t) = (if s = t then Infinity s else NaN)"

fun dmul :: "double \<Rightarrow> double \<Rightarrow> double" where
  "dmul (Finite a) (Finite b) = Finite (a * b)"
| "dmul NaN _ = NaN"
| "dmul _ NaN = NaN"
| "dmul (Infinity s) (Finite b) = (if b = 0 then NaN else Infinity (s \<noteq> (b < 0)))"
| "dmul (Finite a) (Infinity t) = (if a = 0 then NaN else Infinity ((a < 0) \<noteq> t))"
| "dmul (Infinity s) (Infinity t) = Infinity (s \<noteq> t)"

fun ddiv :: "double \<Rightarrow> double \<Rightarrow> double" where
  "ddiv (Finite a) (Finite b) =
     (if b = 0 then (if a = 0 then NaN else Infinity (a < 0)) else Finite (a / b))"
| "ddiv NaN _ = NaN"
| "ddiv _ NaN = NaN"
| "ddiv (Infinity s) (Finite b) = Infinity (s \<noteq> (b < 0))"
| "ddiv (Finite _) (Infinity _) = Finite 0"
| "ddiv (Infinity _) (Infinity _) = NaN"

text \<open>The comparison \<open>a < b\<close> of two doubles; every comparison with NaN is false.\<close>

fun dless :: "double \<Rightarrow> double \<Rightarrow> bool" where
  "dless (Finite a) (Finite b) = (a < b)"
| "dless NaN _ = False"
| "dless _ NaN = False"
| "dless (Infinity s) (Finite _) = s"
| "dless (Finite _) (Infinity t) = (\<not> t)"
| "dless (Infinity s) (Infinity t) = (s \<and> \<not> t)"

text \<open>\<open>std::max(a, b)\<close> is \<open>(a < b) ? b : a\<close> and \<open>std::min(a, b)\<close> is \<open>(b < a) ? b : a\<close>.\<close>

definition std_max :: "double \<Rightarrow> double \<Rightarrow> double" where
  "std_max a b = (if dless a b then b else a)"

definition std_min :: "double \<Rightarrow> double \<Rightarrow> double" where
  "std_min a b = (if dless b a then b else a)"

type_synonym uint32 = "32 word"
type_synonym uint64 = "64 word"

text \<open>The conversion \<open>(double) n\<close> of a 32-bit unsigned counter, which is exact.\<close>

definition double_of_uint32 :: "uint32 \<Rightarrow> double" where
  "double_of_uint32 n = Finite (of_nat (unat n))"

section \<open>Reading generation\<close>

text \<open>
  \<open>CO2SensorApplication::GenerateCO2Value\<close>. The draw
  \<open>rand->GetValue(-50.0, 50.0)\<close> of the simulator's random stream is the argument
  \<open>variation\<close>; \<open>co2_preclamp\<close> is the local \<open>co2Value\<close> before the range check.
\<close>

definition co2_preclamp :: "double \<Rightarrow> double \<Rightarrow> double" where
  "co2_preclamp m_baselineCO2 variation = dadd m_baselineCO2 variation"

text \<open>iot-connectivity.cc: two successive \<open>if\<close> statements.\<close>

definition GenerateCO2Value_flat :: "double \<Rightarrow> double \<Rightarrow> double" where
  "GenerateCO2Value_flat m_baselineCO2 variation =
     (let co2Value = co2_preclamp m_baselineCO2 variation;
          co2Value = (if dless co2Value (Finite 300) then Finite 300 else co2Value);
          co2Value = (if dless (Finite 3000) co2Value then Finite 3000 else co2Value)
      in co2Value)"

text \<open>iot-hierarchical.cc: \<open>std::max(300.0, std::min(3000.0, co2Value))\<close>.\<close>

definition GenerateCO2Value_hier :: "double \<Rightarrow> double \<Rightarrow> double" where
  "GenerateCO2Value_hier m_baselineCO2 variation =
     (let co2Value = co2_preclamp m_baselineCO2 variation
      in std_max (Finite 300) (std_min (Finite 3000) co2Value))"

section \<open>Delivery ratio\<close>

text \<open>
  The end of \<open>main\<close> in both scenarios:
  \<open>(totalPacketsSent > 0) ? (double)totalPacketsReceived / totalPacketsSent * 100.0 : 0.0\<close>.
  A division by zero would show as an infinity or NaN.
\<close>

definition deliveryRatio :: "uint32 \<Rightarrow> uint32 \<Rightarrow> double" where
  "deliveryRatio totalPacketsSent totalPacketsReceived =
     (if totalPacketsSent > 0
      then dmul (ddiv (double_of_uint32 totalPacketsReceived) (double_of_uint32 totalPacketsSent))
             (Finite 100)
      else Finite 0)"

section \<open>The C++ library calls the scenarios make\<close>

text \<open>
  A \<open>std::string\<close> and the bytes of a packet are lists of 8-bit characters;
  \<open>size_t\<close> is a 64-bit unsigned word, so the index arithmetic of the parser wraps
  around as it does in the program.
\<close>

type_synonym size_t = "64 word"

text \<open>The library exceptions the number conversions throw, and the out-of-bounds
  access of a fixed buffer.\<close>

datatype fault = invalid_argument | out_of_range | buffer_overflow

definition npos :: size_t where
  "npos = - 1"

text \<open>\<open>std::string::find\<close>: the index of the first occurrence, or \<open>npos\<close>.\<close>

fun first_occurrence :: "string \<Rightarrow> string \<Rightarrow> nat option" where
  "first_occurrence pat [] = (if pat = [] then Some 0 else None)"
| "first_occurrence pat (c # cs) =
     (if prefix pat (c # cs) then Some 0 else map_option Suc (first_occurrence pat cs))"

definition find_str :: "string \<Rightarrow> string \<Rightarrow> size_t" where
  "find_str data pat = (case first_occurrence pat data of None \<Rightarrow> npos | Some i \<Rightarrow> of_nat i)"

text \<open>\<open>std::string::substr (pos, len)\<close> throws \<open>std::out_of_range\<close> when \<open>pos\<close> is
  past the end, and returns at most \<open>len\<close> characters otherwise.\<close>

definition substr :: "string \<Rightarrow> size_t \<Rightarrow> size_t \<Rightarrow> fault + string" where
  "substr data pos len =
     (if length data < unat pos then Inl out_of_range
      else Inr (take (unat len) (drop (unat pos) data)))"

definition is_space :: "char \<Rightarrow> bool" where
  "is_space c = ((of_char c :: nat) = 32 \<or> (9 \<le> (of_char c :: nat) \<and> (of_char c :: nat) \<le> 13))"

definition is_digit :: "char \<Rightarrow> bool" where
  "is_digit c = (48 \<le> (of_char c :: nat) \<and> (of_char c :: nat) \<le> 57)"

definition digit_val :: "char \<Rightarrow> nat" where
  "digit_val c = of_char c - 48"

definition digit_char :: "nat \<Rightarrow> char" where
  "digit_char d = char_of (48 + d)"

definition digits_val :: "string \<Rightarrow> nat" where
  "digits_val ds = foldl (\<lambda>acc c. 10 * acc + digit_val c) 0 ds"

text \<open>The decimal text of an unsigned integer, as \<open>operator<<\<close> writes it.\<close>

fun show_nat :: "nat \<Rightarrow> string" where
  "show_nat n = (if n < 10 then [digit_char n] else show_nat (n div 10) @ [digit_char (n mod 10)])"

declare show_nat.simps [simp del]

text \<open>The common start of \<open>strtol\<close>, \<open>strtoull\<close> and \<open>strtod\<close>: leading white space is
  skipped and one sign is read.\<close>

definition skip_space_sign :: "string \<Rightarrow> bool \<times> string" where
  "skip_space_sign s =
     (case dropWhile is_space s of
        c # r \<Rightarrow> if c = CHR ''-'' then (True, r) else if c = CHR ''+'' then (False, r) else (False, c # r)
      | [] \<Rightarrow> (False, []))"

text \<open>\<open>std::stoi\<close> (base 10): \<open>std::invalid_argument\<close> when no digit follows the sign,
  \<open>std::out_of_range\<close> when the number does not fit an \<open>int\<close>; what follows the digits
  is ignored.\<close>

definition stoi :: "string \<Rightarrow> fault + int" where
  "stoi s =
     (let (neg, r) = skip_space_sign s;
          ds = takeWhile is_digit r
      in if ds = [] then Inl invalid_argument
         else let v = (if neg then - int (digits_val ds) else int (digits_val ds))
              in if v < - (2 ^ 31) \<or> 2 ^ 31 - 1 < v then Inl out_of_range else Inr v)"

text \<open>\<open>std::stoull\<close> (base 10): a leading minus sign negates the value in the unsigned
  type; \<open>std::out_of_range\<close> when the digits exceed \<open>ULLONG_MAX\<close>.\<close>

definition stoull :: "string \<Rightarrow> fault + uint64" where
  "stoull s =
     (let (neg, r) = skip_space_sign s;
          ds = takeWhile is_digit r
      in if ds = [] then Inl invalid_argument
         else if 2 ^ 64 - 1 < digits_val ds then Inl out_of_range
         else Inr (if neg then - of_nat (digits_val ds) else of_nat (digits_val ds)))"

subsection \<open>Text of a double\<close>

text \<open>
  \<open>operator<<\<close> on a \<open>double\<close> with the stream's default settings is \<open>printf\<close>'s
  \<open>%g\<close> with precision 6: the value is rounded (to nearest, ties to even) to six
  significant digits; with \<open>X\<close> the decimal exponent of the rounded value, the
  fixed notation with \<open>5 - X\<close> decimals is used when \<open>-4 \<le> X < 6\<close> and the scientific
  notation otherwise, and trailing zeros of the fraction are removed.
\<close>

definition round_half_even :: "rat \<Rightarrow> int" where
  "round_half_even q =
     (let f = \<lfloor>q\<rfloor>; r = q - of_int f
      in if r < 1 / 2 then f else if 1 / 2 < r then f + 1 else if even f then f else f + 1)"

text \<open>The \<open>X\<close> with \<open>10 ^ X \<le> a < 10 ^ (X + 1)\<close>, for a positive \<open>a\<close>.\<close>

definition decimal_exponent :: "rat \<Rightarrow> int" where
  "decimal_exponent a =
     (if 1 \<le> a then int (length (show_nat (nat \<lfloor>a\<rfloor>))) - 1
      else - int (length (show_nat (nat (\<lceil>1 / a\<rceil> - 1)))))"

definition scale10 :: "rat \<Rightarrow> int \<Rightarrow> rat" where
  "scale10 a k = (if 0 \<le> k then a * 10 ^ nat k else a / 10 ^ nat (- k))"

text \<open>The last \<open>k\<close> decimal digits of \<open>n\<close>, with leading zeros.\<close>

fun pad_digits :: "nat \<Rightarrow> nat \<Rightarrow> string" where
  "pad_digits 0 n = []"
| "pad_digits (Suc k) n = pad_digits k (n div 10) @ [digit_char (n mod 10)]"

definition strip_zeros :: "string \<Rightarrow> string" where
  "strip_zeros ds = rev (dropWhile (\<lambda>c. c = CHR ''0'') (rev ds))"

definition fmt_g :: "rat \<Rightarrow> string" where
  "fmt_g v =
     (if v = 0 then ''0''
      else
        let a = \<bar>v\<bar>;
            X0 = decimal_exponent a;
            m0 = nat (round_half_even (scale10 a (5 - X0)));
            m = (if m0 = 10 ^ 6 then 10 ^ 5 else m0);
            X = (if m0 = 10 ^ 6 then X0 + 1 else X0);
            body =
              (if X < - 4 \<or> 6 \<le> X
               then (let frac = strip_zeros (pad_digits 5 (m mod 10 ^ 5))
                     in show_nat (m div 10 ^ 5) @ (if frac = [] then [] else CHR ''.'' # frac) @
                        ''e'' @ (if X < 0 then ''-'' else ''+'') @
                        (if \<bar>X\<bar> < 10 then ''0'' else []) @ show_nat (nat \<bar>X\<bar>))
               else (let k = nat (5 - X);
                         frac = strip_zeros (pad_digits k (m mod 10 ^ k))
                     in show_nat (m div 10 ^ k) @ (if frac = [] then [] else CHR ''.'' # frac)))
        in (if v < 0 then ''-'' else []) @ body)"

definition show_double :: "double \<Rightarrow> string" where
  "show_double d =
     (case d of
        Finite v \<Rightarrow> fmt_g v
      | Infinity neg \<Rightarrow> (if neg then ''-inf'' else ''inf'')
      | NaN \<Rightarrow> ''nan'')"

subsection \<open>Parsing a double\<close>

text \<open>
  \<open>std::stod\<close> calls \<open>strtod\<close>: after white space and a sign it reads \<open>inf\<close> or \<open>nan\<close>
  (in any letter case), a hexadecimal number after \<open>0x\<close>, or a decimal number with an
  optional fraction and an optional exponent, and ignores what follows. It throws
  \<open>std::invalid_argument\<close> when no number is read and \<open>std::out_of_range\<close> when
  \<open>strtod\<close> reports a range error. The number read is rounded to the nearest
  binary64 value, ties to the even significand.
\<close>

definition to_lower :: "char \<Rightarrow> char" where
  "to_lower c = (if 65 \<le> (of_char c :: nat) \<and> (of_char c :: nat) \<le> 90 then char_of ((of_char c :: nat) + 32) else c)"

definition is_xdigit :: "char \<Rightarrow> bool" where
  "is_xdigit c = (is_digit c \<or> (97 \<le> (of_char (to_lower c) :: nat) \<and> (of_char (to_lower c) :: nat) \<le> 102))"

definition xdigit_val :: "char \<Rightarrow> nat" where
  "xdigit_val c = (if is_digit c then digit_val c else (of_char (to_lower c) :: nat) - 87)"

definition xdigits_val :: "string \<Rightarrow> nat" where
  "xdigits_val ds = foldl (\<lambda>acc c. 16 * acc + xdigit_val c) 0 ds"

text \<open>An exponent part: the letter \<open>mark\<close>, an optional sign and at least one decimal
  digit; anything else is no exponent.\<close>

definition exponent_part :: "char \<Rightarrow> string \<Rightarrow> int" where
  "exponent_part mark r =
     (case r of
        [] \<Rightarrow> 0
      | c # t \<Rightarrow>
          if to_lower c = mark then
            (let (neg, u) = (case t of
                               [] \<Rightarrow> (False, [])
                             | d # w \<Rightarrow> if d = CHR ''-'' then (True, w)
                                        else if d = CHR ''+'' then (False, w) else (False, d # w));
                 es = takeWhile is_digit u
             in if es = [] then 0 else if neg then - int (digits_val es) else int (digits_val es))
          else 0)"

definition scale2 :: "rat \<Rightarrow> int \<Rightarrow> rat" where
  "scale2 a k = (if 0 \<le> k then a * 2 ^ nat k else a / 2 ^ nat (- k))"

text \<open>The mantissa \<open>digits[.digits]\<close> in the given base: its integer digits, its
  fraction digits and the rest of the text.\<close>

definition mantissa :: "(char \<Rightarrow> bool) \<Rightarrow> string \<Rightarrow> string \<times> string \<times> string" where
  "mantissa is_dig r =
     (let ip = takeWhile is_dig r; r1 = dropWhile is_dig r
      in case r1 of
           [] \<Rightarrow> (ip, [], [])
         | c # t \<Rightarrow> if c = CHR ''.'' then (ip, takeWhile is_dig t, dropWhile is_dig t)
                    else (ip, [], r1))"

definition strtod_finite :: "string \<Rightarrow> rat option" where
  "strtod_finite r =
     (let hex = (case r of
                   z # x # t \<Rightarrow>
                     if z = CHR ''0'' \<and> to_lower x = CHR ''x'' then
                       (let (ip, fp, r2) = mantissa is_xdigit t
                        in if ip = [] \<and> fp = [] then None
                           else Some (scale2 (of_nat (xdigits_val (ip @ fp)) / 16 ^ length fp)
                                        (exponent_part (CHR ''p'') r2)))
                     else None
                 | _ \<Rightarrow> None)
      in case hex of
           Some q \<Rightarrow> Some q
         | None \<Rightarrow>
             (let (ip, fp, r2) = mantissa is_digit r
              in if ip = [] \<and> fp = [] then None
                 else Some (scale10 (of_nat (digits_val (ip @ fp)) / 10 ^ length fp)
                              (exponent_part (CHR ''e'') r2))))"

text \<open>The number of binary digits of \<open>n\<close>.\<close>

fun bit_length :: "nat \<Rightarrow> nat" where
  "bit_length n = (if n = 0 then 0 else Suc (bit_length (n div 2)))"

declare bit_length.simps [simp del]

text \<open>The \<open>e\<close> with \<open>2 ^ e \<le> a < 2 ^ (e + 1)\<close>, for a positive \<open>a\<close>.\<close>

definition binary_exponent :: "rat \<Rightarrow> int" where
  "binary_exponent a =
     (if 1 \<le> a then int (bit_length (nat \<lfloor>a\<rfloor>)) - 1
      else - int (bit_length (nat (\<lceil>1 / a\<rceil> - 1))))"

text \<open>Rounding to 53 significant bits for a number of binary exponent \<open>e\<close>: to the
  nearest multiple of \<open>2 ^ (e - 52)\<close>, ties to the even multiple.\<close>

definition round_at :: "int \<Rightarrow> rat \<Rightarrow> rat" where
  "round_at e q = scale2 (of_int (round_half_even (scale2 q (52 - e)))) (e - 52)"

text \<open>The nearest binary64 value: 53 significant bits from the smallest normal number
  \<open>2 ^ - 1022\<close> on, multiples of \<open>2 ^ - 1074\<close> below it.\<close>

definition round_binary64 :: "rat \<Rightarrow> rat" where
  "round_binary64 q = (if q = 0 then 0 else round_at (max (binary_exponent \<bar>q\<bar>) (- 1022)) q)"

text \<open>
  The range errors of \<open>strtod\<close>. Overflow: the number rounds to an infinity, which
  it does from \<open>2 ^ 1024 - 2 ^ 970\<close> on. Underflow: the number is not zero, it is
  below the smallest normal number and stays below it when rounded to 53 bits, and it
  is not a multiple of \<open>2 ^ - 1074\<close>, so that the result is inexact.
\<close>

definition range_error :: "rat \<Rightarrow> bool" where
  "range_error q =
     (2 ^ 1024 - 2 ^ 970 \<le> \<bar>q\<bar> \<or>
      (q \<noteq> 0 \<and> \<bar>q\<bar> < 1 / 2 ^ 1022 \<and> \<bar>round_at (binary_exponent \<bar>q\<bar>) q\<bar> < 1 / 2 ^ 1022 \<and>
       of_int \<lfloor>q * 2 ^ 1074\<rfloor> \<noteq> q * 2 ^ 1074))"

definition stod :: "string \<Rightarrow> fault + double" where
  "stod s =
     (let (neg, r) = skip_space_sign s
      in if prefix ''inf'' (map to_lower r) then Inr (Infinity neg)
         else if prefix ''nan'' (map to_lower r) then Inr NaN
         else case strtod_finite r of
                None \<Rightarrow> Inl invalid_argument
              | Some q \<Rightarrow> if range_error q then Inl out_of_range
                          else Inr (Finite (if neg then - round_binary64 q else round_binary64 q)))"

section \<open>The wire format\<close>

text \<open>The payload \<open>SendCO2Reading\<close> writes to its string stream in
  iot-connectivity.cc.\<close>

definition payload_flat :: "uint32 \<Rightarrow> uint32 \<Rightarrow> double \<Rightarrow> uint64 \<Rightarrow> string" where
  "payload_flat m_sensorId m_companyId co2Value timestamp =
     ''SENSOR:'' @ show_nat (unat m_sensorId) @ '',COMPANY:'' @ show_nat (unat m_companyId) @
     '',CO2:'' @ show_double co2Value @ '',TIME:'' @ show_nat (unat timestamp)"

text \<open>The payload of iot-hierarchical.cc, which has no time field.\<close>

definition payload_hier :: "uint32 \<Rightarrow> uint32 \<Rightarrow> double \<Rightarrow> string" where
  "payload_hier m_sensorId m_zoneId co2Value =
     ''SENSOR:'' @ show_nat (unat m_sensorId) @ '',ZONE:'' @ show_nat (unat m_zoneId) @
     '',CO2:'' @ show_double co2Value"

subsection \<open>The text and the value of a reading on the wire\<close>

text \<open>
  What \<open>operator<<\<close> keeps of a \<open>double\<close>: the value rounded to six significant
  decimal digits, ties to even. It is the number that the text written by \<open>fmt_g\<close>
  denotes.
\<close>

definition round_sig6 :: "rat \<Rightarrow> rat" where
  "round_sig6 v =
     (if v = 0 then 0
      else sgn v * scale10 (of_int (round_half_even (scale10 \<bar>v\<bar> (5 - decimal_exponent \<bar>v\<bar>))))
                     (decimal_exponent \<bar>v\<bar> - 5))"

text \<open>The fixed notation of \<open>fmt_g\<close>: an integer part and, unless they are all zero, a
  point and \<open>k\<close> decimals without their trailing zeros.\<close>

definition fixed_text :: "nat \<Rightarrow> nat \<Rightarrow> nat \<Rightarrow> string" where
  "fixed_text ip k fm =
     show_nat ip @ (if strip_zeros (pad_digits k fm) = [] then [] else CHR ''.'' # strip_zeros (pad_digits k fm))"

text \<open>The characters of the numbers of a payload, none of which is a letter of a tag.\<close>

definition is_numeric :: "char \<Rightarrow> bool" where
  "is_numeric c = (is_digit c \<or> c = CHR ''.'')"

section \<open>The gateways\<close>

subsection \<open>The receive buffer\<close>

text \<open>
  Both gateways copy the packet into \<open>uint8_t buffer[1024]\<close>, write a NUL at index
  \<open>packet->GetSize()\<close> and build a \<open>std::string\<close> from the buffer. The buffer is a
  list of 1024 cells, none of them initialised; a write checks its index, and the
  string is read cell by cell up to the first NUL.
\<close>

type_synonym buffer = "char option list"

definition fresh_buffer :: buffer where
  "fresh_buffer = replicate 1024 None"

definition buffer_write :: "buffer \<Rightarrow> nat \<Rightarrow> char \<Rightarrow> fault + buffer" where
  "buffer_write buf i c = (if i < length buf then Inr (buf[i := Some c]) else Inl buffer_overflow)"

definition bind_fault :: "fault + 'a \<Rightarrow> ('a \<Rightarrow> fault + 'b) \<Rightarrow> fault + 'b" where
  "bind_fault m f = (case m of Inl e \<Rightarrow> Inl e | Inr x \<Rightarrow> f x)"

text \<open>\<open>Packet::CopyData\<close>: the bytes go to consecutive cells, from index \<open>i\<close> on.\<close>

fun CopyData :: "buffer \<Rightarrow> nat \<Rightarrow> char list \<Rightarrow> fault + buffer" where
  "CopyData buf i [] = Inr buf"
| "CopyData buf i (c # cs) = bind_fault (buffer_write buf i c) (\<lambda>buf'. CopyData buf' (Suc i) cs)"

text \<open>\<open>std::string ((char* ) buffer)\<close>: the characters before the first NUL. Reading a
  cell that was never written, or past the last cell, is a fault.\<close>

fun c_string :: "buffer \<Rightarrow> fault + string" where
  "c_string [] = Inl buffer_overflow"
| "c_string (None # cells) = Inl buffer_overflow"
| "c_string (Some c # cells) =
     (if c = CHR 0x00 then Inr [] else bind_fault (c_string cells) (\<lambda>s. Inr (c # s)))"

definition load_packet :: "char list \<Rightarrow> fault + string" where
  "load_packet packet =
     bind_fault (CopyData fresh_buffer 0 packet) (\<lambda>buf.
     bind_fault (buffer_write buf (length packet) (CHR 0x00)) (\<lambda>buf'.
     c_string buf'))"

subsection \<open>Decoding\<close>

record flat_reading =
  r_sensorId :: uint32
  r_companyId :: uint32
  r_co2Value :: double
  r_timestamp :: uint64

record hier_reading =
  z_sensorId :: uint32
  z_zoneId :: uint32
  z_co2Value :: double

datatype 'r decoded = Reading 'r | MalformedPacket

text \<open>
  The parser of \<open>CarbonGatewayApplication::ProcessCO2Data\<close>: the four \<open>find\<close> calls,
  the test against \<open>npos\<close>, and the four conversions in the order of the source. The
  result of \<open>std::stoi\<close> is converted to \<open>uint32_t\<close>. \<open>MalformedPacket\<close> is the
  \<open>else\<close> branch.
\<close>

definition Decode_flat :: "string \<Rightarrow> fault + flat_reading decoded" where
  "Decode_flat data =
     (let sensorPos = find_str data ''SENSOR:'';
          companyPos = find_str data ''COMPANY:'';
          co2Pos = find_str data ''CO2:'';
          timePos = find_str data ''TIME:''
      in if sensorPos \<noteq> npos \<and> companyPos \<noteq> npos \<and> co2Pos \<noteq> npos \<and> timePos \<noteq> npos
         then
           bind_fault (substr data (sensorPos + 7) (companyPos - sensorPos - 8)) (\<lambda>s1.
           bind_fault (stoi s1) (\<lambda>sensorId.
           bind_fault (substr data (companyPos + 8) (co2Pos - companyPos - 9)) (\<lambda>s2.
           bind_fault (stoi s2) (\<lambda>companyId.
           bind_fault (substr data (co2Pos + 4) (timePos - co2Pos - 5)) (\<lambda>s3.
           bind_fault (stod s3) (\<lambda>co2Value.
           bind_fault (substr data (timePos + 5) npos) (\<lambda>s4.
           bind_fault (stoull s4) (\<lambda>timestamp.
           Inr (Reading \<lparr>r_sensorId = word_of_int sensorId, r_companyId = word_of_int companyId,
                          r_co2Value = co2Value, r_timestamp = timestamp\<rparr>)))))))))
         else Inr MalformedPacket)"

text \<open>The parser of \<open>MainGatewayApplication::ProcessData\<close>; a payload that lacks a tag
  is passed over without a message.\<close>

definition Decode_hier :: "string \<Rightarrow> fault + hier_reading decoded" where
  "Decode_hier data =
     (let sensorPos = find_str data ''SENSOR:'';
          zonePos = find_str data ''ZONE:'';
          co2Pos = find_str data ''CO2:''
      in if sensorPos \<noteq> npos \<and> zonePos \<noteq> npos \<and> co2Pos \<noteq> npos
         then
           bind_fault (substr data (sensorPos + 7) (zonePos - sensorPos - 8)) (\<lambda>s1.
           bind_fault (stoi s1) (\<lambda>sensorId.
           bind_fault (substr data (zonePos + 5) (co2Pos - zonePos - 6)) (\<lambda>s2.
           bind_fault (stoi s2) (\<lambda>zoneId.
           bind_fault (substr data (co2Pos + 4) npos) (\<lambda>s3.
           bind_fault (stod s3) (\<lambda>co2Value.
           Inr (Reading \<lparr>z_sensorId = word_of_int sensorId, z_zoneId = word_of_int zoneId,
                          z_co2Value = co2Value\<rparr>)))))))
         else Inr MalformedPacket)"

subsection \<open>Aggregation\<close>

text \<open>
  The calls of \<open>NS_LOG_INFO\<close> and \<open>NS_LOG_WARN\<close> the applications make, one constructor
  for each call site, with the sensor identifier the message prints.
\<close>

datatype log_line =
    SensorStarted uint32
  | SensorStopped uint32
  | ReadingSent uint32
  | SendFailed uint32
  | ReadingReceived uint32
  | MalformedWarning
  | APReceived
  | APForwarded

text \<open>The global variables of a scenario, and the log. \<open>operator[]\<close> of \<open>std::map\<close>
  inserts a zero for a key that is absent.\<close>

record globals =
  totalCO2BySensor :: "uint32 \<rightharpoonup> double"
  packetCountBySensor :: "uint32 \<rightharpoonup> uint32"
  totalPacketsReceived :: uint32
  totalPacketsSent :: uint32
  ns_log :: "log_line list"

definition record_reading :: "uint32 \<Rightarrow> double \<Rightarrow> 'a globals_scheme \<Rightarrow> 'a globals_scheme" where
  "record_reading sensorId co2Value g =
     g\<lparr>totalCO2BySensor := (totalCO2BySensor g)
          (sensorId \<mapsto> dadd (case totalCO2BySensor g sensorId of None \<Rightarrow> Finite 0 | Some t \<Rightarrow> t) co2Value),
       packetCountBySensor := (packetCountBySensor g)
          (sensorId \<mapsto> (case packetCountBySensor g sensorId of None \<Rightarrow> 0 | Some n \<Rightarrow> n) + 1)\<rparr>"

text \<open>\<open>CarbonGatewayApplication::ProcessCO2Data\<close> and
  \<open>MainGatewayApplication::ProcessData\<close>. An exception of a conversion leaves the
  function before the maps are touched; nothing in the scenario catches it. Only the
  first of the two has an \<open>else\<close> branch, which logs a warning.\<close>

definition ProcessCO2Data :: "char list \<Rightarrow> 'a globals_scheme \<Rightarrow> fault + 'a globals_scheme" where
  "ProcessCO2Data packet g =
     bind_fault (load_packet packet) (\<lambda>data.
     bind_fault (Decode_flat data) (\<lambda>d.
       case d of
         Reading r \<Rightarrow>
           Inr ((record_reading (r_sensorId r) (r_co2Value r) g)
                  \<lparr>ns_log := ns_log g @ [ReadingReceived (r_sensorId r)]\<rparr>)
       | MalformedPacket \<Rightarrow> Inr (g\<lparr>ns_log := ns_log g @ [MalformedWarning]\<rparr>)))"

definition ProcessData :: "char list \<Rightarrow> 'a globals_scheme \<Rightarrow> fault + 'a globals_scheme" where
  "ProcessData packet g =
     bind_fault (load_packet packet) (\<lambda>data.
     bind_fault (Decode_hier data) (\<lambda>d.
       case d of
         Reading r \<Rightarrow>
           Inr ((record_reading (z_sensorId r) (z_co2Value r) g)
                  \<lparr>ns_log := ns_log g @ [ReadingReceived (z_sensorId r)]\<rparr>)
       | MalformedPacket \<Rightarrow> Inr g))"

text \<open>
  \<open>HandleRead\<close> of a gateway drains the socket: the argument is the list of packets
  \<open>RecvFrom\<close> returns. The result is the state when the loop ends, or the fault and
  the state at the moment an exception leaves \<open>HandleRead\<close>.
\<close>

datatype 'g outcome = Returned 'g | Aborted fault 'g

fun gateway_loop ::
  "(char list \<Rightarrow> 'a globals_scheme \<Rightarrow> fault + 'a globals_scheme) \<Rightarrow> char list list \<Rightarrow>
   'a globals_scheme \<Rightarrow> 'a globals_scheme outcome" where
  "gateway_loop process [] g = Returned g"
| "gateway_loop process (packet # rest) g =
     (if length packet > 0
      then (let g1 = g\<lparr>totalPacketsReceived := totalPacketsReceived g + 1\<rparr>
            in case process packet g1 of
                 Inl e \<Rightarrow> Aborted e g1
               | Inr g2 \<Rightarrow> gateway_loop process rest g2)
      else gateway_loop process rest g)"

definition CarbonGateway_HandleRead :: "char list list \<Rightarrow> 'a globals_scheme \<Rightarrow> 'a globals_scheme outcome" where
  "CarbonGateway_HandleRead packets g = gateway_loop ProcessCO2Data packets g"

definition MainGateway_HandleRead :: "char list list \<Rightarrow> 'a globals_scheme \<Rightarrow> 'a globals_scheme outcome" where
  "MainGateway_HandleRead packets g = gateway_loop ProcessData packets g"

text \<open>
  Notions for stating the properties of the flat gateway: the state an outcome ends
  in, and the invariant of the two maps after at most \<open>n\<close> packets (they have the same
  keys, and every count is between 1 and \<open>n\<close>).
\<close>

definition state_of :: "'g outcome \<Rightarrow> 'g" where
  "state_of out = (case out of Returned g \<Rightarrow> g | Aborted e g \<Rightarrow> g)"

definition counts_ok :: "nat \<Rightarrow> 'a globals_scheme \<Rightarrow> bool" where
  "counts_ok n g =
     (dom (totalCO2BySensor g) = dom (packetCountBySensor g) \<and>
      (\<forall>sid c. packetCountBySensor g sid = Some c \<longrightarrow> 1 \<le> unat c \<and> unat c \<le> n))"

section \<open>The sensor application\<close>

text \<open>
  A \<open>CO2SensorApplication\<close> object. \<open>m_groupId\<close> is \<open>m_companyId\<close> in
  iot-connectivity.cc and \<open>m_zoneId\<close> in iot-hierarchical.cc; \<open>m_sendEvent\<close> is the
  \<open>EventId\<close>, the identifier of the event it refers to (none after construction);
  times are in nanoseconds, the simulator's resolution.
\<close>

datatype topology = Flat | Hierarchical

datatype socket_state = Created | Connected | Closed

record sensor =
  m_sensorId :: uint32
  m_groupId :: uint32
  m_baselineCO2 :: double
  m_sendEvent :: "nat option"
  m_interval :: int
  m_running :: bool
  m_socket :: socket_state

text \<open>The constructor followed by \<open>Setup\<close>.\<close>

definition Setup :: "uint32 \<Rightarrow> uint32 \<Rightarrow> double \<Rightarrow> sensor" where
  "Setup sensorId groupId baselineCO2 =
     \<lparr>m_sensorId = sensorId, m_groupId = groupId, m_baselineCO2 = baselineCO2,
      m_sendEvent = None, m_interval = 5000000000, m_running = False, m_socket = Created\<rparr>"

text \<open>
  The program state the sensors act on: the global counters, the sensor objects, and
  the simulator's clock and event list. An event is its identifier, its time and the
  index of the sensor whose \<open>SendCO2Reading\<close> it calls. \<open>send_calls\<close> records every
  call of \<open>m_socket->Send\<close>: the sensor, the payload and the value returned.
\<close>

record world = globals +
  sensors :: "sensor list"
  sim_now :: int
  sim_queue :: "(nat \<times> int \<times> nat) list"
  sim_next_uid :: nat
  send_calls :: "(nat \<times> string \<times> int) list"

definition Simulator_Schedule :: "int \<Rightarrow> nat \<Rightarrow> world \<Rightarrow> nat \<times> world" where
  "Simulator_Schedule delay target w =
     (sim_next_uid w,
      w\<lparr>sim_queue := sim_queue w @ [(sim_next_uid w, sim_now w + delay, target)],
        sim_next_uid := sim_next_uid w + 1\<rparr>)"

definition IsPending :: "nat option \<Rightarrow> world \<Rightarrow> bool" where
  "IsPending ev w = (case ev of None \<Rightarrow> False | Some uid \<Rightarrow> uid \<in> fst ` set (sim_queue w))"

definition Simulator_Cancel :: "nat option \<Rightarrow> world \<Rightarrow> world" where
  "Simulator_Cancel ev w =
     (case ev of None \<Rightarrow> w | Some uid \<Rightarrow> w\<lparr>sim_queue := filter (\<lambda>e. fst e \<noteq> uid) (sim_queue w)\<rparr>)"

text \<open>A log call that only iot-connectivity.cc makes.\<close>

definition log_flat :: "topology \<Rightarrow> log_line \<Rightarrow> world \<Rightarrow> world" where
  "log_flat topo line w =
     (case topo of Flat \<Rightarrow> w\<lparr>ns_log := ns_log w @ [line]\<rparr> | Hierarchical \<Rightarrow> w)"

text \<open>\<open>Socket::Send\<close> on a UDP socket: \<open>actual\<close> is what the transport answers on a
  connected socket; a socket that is not connected, or closed, returns -1.\<close>

definition socket_send :: "socket_state \<Rightarrow> int \<Rightarrow> int" where
  "socket_send sock actual = (if sock = Connected then actual else - 1)"

text \<open>\<open>CO2SensorApplication::SendCO2Reading\<close> of sensor \<open>i\<close>; \<open>variation\<close> is the random
  draw and \<open>actual\<close> the transport's answer. The two scenarios differ in the payload,
  and in that only iot-connectivity.cc has an \<open>else\<close> branch, which logs the failure.\<close>

definition SendCO2Reading :: "topology \<Rightarrow> nat \<Rightarrow> double \<Rightarrow> int \<Rightarrow> world \<Rightarrow> world" where
  "SendCO2Reading topo i variation actual w =
     (let s = sensors w ! i;
          data = (case topo of
                    Flat \<Rightarrow>
                      payload_flat (m_sensorId s) (m_groupId s)
                        (GenerateCO2Value_flat (m_baselineCO2 s) variation)
                        (word_of_int (sim_now w div 1000))
                  | Hierarchical \<Rightarrow>
                      payload_hier (m_sensorId s) (m_groupId s)
                        (GenerateCO2Value_hier (m_baselineCO2 s) variation));
          result = socket_send (m_socket s) actual;
          w1 = w\<lparr>send_calls := send_calls w @ [(i, data, result)]\<rparr>;
          w2 = (if result > 0
                then w1\<lparr>totalPacketsSent := totalPacketsSent w1 + 1,
                        ns_log := ns_log w1 @ [ReadingSent (m_sensorId s)]\<rparr>
                else log_flat topo (SendFailed (m_sensorId s)) w1)
      in if m_running s
         then (let (uid, w3) = Simulator_Schedule (m_interval s) i w2
               in w3\<lparr>sensors := (sensors w3)[i := s\<lparr>m_sendEvent := Some uid\<rparr>]\<rparr>)
         else w2)"

definition StartApplication :: "topology \<Rightarrow> nat \<Rightarrow> double \<Rightarrow> int \<Rightarrow> world \<Rightarrow> world" where
  "StartApplication topo i variation actual w =
     (let s = sensors w ! i;
          w1 = w\<lparr>sensors := (sensors w)[i := s\<lparr>m_running := True, m_socket := Connected\<rparr>]\<rparr>;
          w2 = log_flat topo (SensorStarted (m_sensorId s)) w1
      in SendCO2Reading topo i variation actual w2)"

definition StopApplication :: "topology \<Rightarrow> nat \<Rightarrow> world \<Rightarrow> world" where
  "StopApplication topo i w =
     (let s = sensors w ! i;
          w1 = w\<lparr>sensors := (sensors w)[i := s\<lparr>m_running := False\<rparr>]\<rparr>;
          w2 = (if IsPending (m_sendEvent s) w1 then Simulator_Cancel (m_sendEvent s) w1 else w1);
          w3 = w2\<lparr>sensors := (sensors w2)[i := (sensors w2 ! i)\<lparr>m_socket := Closed\<rparr>]\<rparr>
      in log_flat topo (SensorStopped (m_sensorId s)) w3)"

text \<open>
  What happens to the sensors during a run: the framework's start or stop event of
  sensor \<open>i\<close> with time \<open>t\<close>, or the earliest event of the simulator's list (by time,
  then by identifier). The framework's events are events of the same simulator, so
  one is run only in its turn: not before the clock and not after a listed event that
  is earlier. Each call of \<open>SendCO2Reading\<close> consumes a random draw and an answer of
  the transport.
\<close>

datatype event = AppStart nat int double int | AppStop nat int | RunNext double int

fun earliest :: "(nat \<times> int \<times> nat) list \<Rightarrow> (nat \<times> int \<times> nat) option" where
  "earliest [] = None"
| "earliest (e # es) =
     (case earliest es of
        None \<Rightarrow> Some e
      | Some e' \<Rightarrow>
          if fst (snd e) < fst (snd e') \<or> (fst (snd e) = fst (snd e') \<and> fst e < fst e')
          then Some e else Some e')"

definition in_turn :: "nat \<Rightarrow> int \<Rightarrow> world \<Rightarrow> bool" where
  "in_turn i t w =
     (i < length (sensors w) \<and> sim_now w \<le> t \<and> list_all (\<lambda>e. t \<le> fst (snd e)) (sim_queue w))"

fun step :: "topology \<Rightarrow> event \<Rightarrow> world \<Rightarrow> world" where
  "step topo (AppStart i t variation actual) w =
     (if in_turn i t w then StartApplication topo i variation actual (w\<lparr>sim_now := t\<rparr>) else w)"
| "step topo (AppStop i t) w =
     (if in_turn i t w then StopApplication topo i (w\<lparr>sim_now := t\<rparr>) else w)"
| "step topo (RunNext variation actual) w =
     (case earliest (sim_queue w) of
        None \<Rightarrow> w
      | Some (uid, t, i) \<Rightarrow>
          SendCO2Reading topo i variation actual
            (w\<lparr>sim_queue := filter (\<lambda>e. fst e \<noteq> uid) (sim_queue w), sim_now := t\<rparr>))"

fun run :: "topology \<Rightarrow> event list \<Rightarrow> world \<Rightarrow> world" where
  "run topo [] w = w"
| "run topo (e # es) w = run topo es (step topo e w)"

text \<open>The state before the simulation runs: one sensor for each
  \<open>(sensorId, groupId, baselineCO2)\<close> that \<open>main\<close> passes to \<open>Setup\<close>.\<close>

definition initial_world :: "(uint32 \<times> uint32 \<times> double) list \<Rightarrow> world" where
  "initial_world cfg =
     \<lparr>totalCO2BySensor = Map.empty, packetCountBySensor = Map.empty,
      totalPacketsReceived = 0, totalPacketsSent = 0, ns_log = [],
      sensors = map (\<lambda>(sensorId, groupId, baselineCO2). Setup sensorId groupId baselineCO2) cfg,
      sim_now = 0, sim_queue = [], sim_next_uid = 0, send_calls = []\<rparr>"

text \<open>
  Notions for stating the properties of the sensors: the framework's start events of
  sensor \<open>i\<close>, the \<open>Send\<close> calls sensor \<open>i\<close> has made, and the number of calls that
  succeeded (returned a positive value).
\<close>

definition is_start :: "nat \<Rightarrow> event \<Rightarrow> bool" where
  "is_start i e = (case e of AppStart j t v a \<Rightarrow> j = i | _ \<Rightarrow> False)"

definition sends_of :: "nat \<Rightarrow> world \<Rightarrow> (nat \<times> string \<times> int) list" where
  "sends_of i w = filter (\<lambda>c. fst c = i) (send_calls w)"

definition successes :: "(nat \<times> string \<times> int) list \<Rightarrow> nat" where
  "successes calls = length (filter (\<lambda>c. 0 < snd (snd c)) calls)"

text \<open>
  Two invariants of a run. \<open>tracked\<close>: every listed event of sensor \<open>i\<close> is the one its
  \<open>m_sendEvent\<close> refers to. \<open>quiet\<close>: sensor \<open>i\<close> is not running and has no listed event.
\<close>

definition tracked :: "nat \<Rightarrow> world \<Rightarrow> bool" where
  "tracked i w =
     (\<forall>e\<in>set (sim_queue w). snd (snd e) = i \<longrightarrow> m_sendEvent (sensors w ! i) = Some (fst e))"

definition quiet :: "nat \<Rightarrow> world \<Rightarrow> bool" where
  "quiet i w = (\<not> m_running (sensors w ! i) \<and> (\<forall>e\<in>set (sim_queue w). snd (snd e) \<noteq> i))"

section \<open>The local access point\<close>

text \<open>
  A \<open>LocalAPApplication\<close>: its two counters, and the calls of
  \<open>m_forwardSocket->Send\<close> it has made (the packet handed over and the value
  returned).
\<close>

record access_point =
  m_packetsReceived :: uint32
  m_packetsForwarded :: uint32
  forward_calls :: "(char list \<times> int) list"
  ap_log :: "log_line list"

definition new_access_point :: access_point where
  "new_access_point =
     \<lparr>m_packetsReceived = 0, m_packetsForwarded = 0, forward_calls = [], ap_log = []\<rparr>"

definition ForwardToGateway :: "char list \<Rightarrow> int \<Rightarrow> access_point \<Rightarrow> access_point" where
  "ForwardToGateway packet result ap =
     (let ap1 = ap\<lparr>forward_calls := forward_calls ap @ [(packet, result)]\<rparr>
      in if result > 0
         then ap1\<lparr>m_packetsForwarded := m_packetsForwarded ap1 + 1,
                 ap_log := ap_log ap1 @ [APForwarded]\<rparr>
         else ap1)"

text \<open>\<open>LocalAPApplication::HandleRead\<close>: the packets \<open>RecvFrom\<close> returns, each with
  the answer the forwarding socket gives for it.\<close>

fun AP_HandleRead :: "(char list \<times> int) list \<Rightarrow> access_point \<Rightarrow> access_point" where
  "AP_HandleRead [] ap = ap"
| "AP_HandleRead ((packet, result) # rest) ap =
     (if length packet > 0
      then AP_HandleRead rest
             (ForwardToGateway packet result
                (ap\<lparr>m_packetsReceived := m_packetsReceived ap + 1,
                    ap_log := ap_log ap @ [APReceived]\<rparr>))
      else AP_HandleRead rest ap)"

section \<open>Properties of reading generation and of the delivery ratio\<close>








text \<open>
  Claim C5. The delivery ratio is \<open>totalReceived / totalSent * 100\<close> when
  \<open>totalSent\<close> is positive and exactly 0 when it is 0; for every pair of counters
  the result is a finite number, so no division by zero is ever evaluated.
\<close>

theorem deliveryRatio_value:
  "(0 < sent \<longrightarrow>
      deliveryRatio sent received =
        Finite (of_nat (unat received) / of_nat (unat sent) * 100)) \<and>
   (sent = 0 \<longrightarrow> deliveryRatio sent received = Finite 0) \<and>
   (\<exists>q. deliveryRatio sent received = Finite q)"
proof -
  have nz: "0 < sent \<Longrightarrow> (of_nat (unat sent) :: rat) \<noteq> 0"
    by (simp add: word_greater_zero_iff unsigned_eq_0_iff)
  show ?thesis
    using nz by (auto simp: deliveryRatio_def double_of_uint32_def)
qed

theorem deliveryRatio_value_witness:
  "(0 :: uint32) < 4 \<and> deliveryRatio 4 3 = Finite 75 \<and> deliveryRatio 0 3 = Finite 0"
  using deliveryRatio_value [of 4 3] deliveryRatio_value [of 0 3]
  by simp

section \<open>Facts about 32-bit counters\<close>

lemma of_nat_mono_32:
  "m \<le> n \<Longrightarrow> n < 2 ^ 32 \<Longrightarrow> (of_nat m :: uint32) \<le> of_nat n"
  by (simp add: word_le_nat_alt unat_of_nat take_bit_nat_eq_self)

lemma unat_of_nat_32: "n < 2 ^ 32 \<Longrightarrow> unat (of_nat n :: uint32) = n"
  by (simp add: unat_of_nat take_bit_nat_eq_self)

section \<open>Properties of the gateways\<close>

subsection \<open>The receive buffer\<close>

lemma CopyData_fits:
  "i + length cs \<le> length buf \<Longrightarrow>
   CopyData buf i cs = Inr (take i buf @ map Some cs @ drop (i + length cs) buf)"
proof (induction cs arbitrary: buf i)
  case Nil
  then show ?case by simp
next
  case (Cons c cs)
  have i: "i < length buf" using Cons.prems by simp
  have "CopyData (buf[i := Some c]) (Suc i) cs =
          Inr (take (Suc i) (buf[i := Some c]) @ map Some cs @ drop (Suc i + length cs) (buf[i := Some c]))"
    using Cons.prems by (intro Cons.IH) simp
  moreover have "take (Suc i) (buf[i := Some c]) = take i buf @ [Some c]"
    using i by (simp add: take_Suc_conv_app_nth)
  ultimately show ?case
    using i by (simp add: buffer_write_def bind_fault_def)
qed

lemma CopyData_overflow:
  "i \<le> length buf \<Longrightarrow> length buf < i + length cs \<Longrightarrow> CopyData buf i cs = Inl buffer_overflow"
proof (induction cs arbitrary: buf i)
  case Nil
  then show ?case by simp
next
  case (Cons c cs)
  then show ?case
    by (cases "i < length buf") (auto simp: buffer_write_def bind_fault_def)
qed

lemma c_string_terminated:
  "c_string (map Some p @ Some (CHR 0x00) # rest) = Inr (takeWhile (\<lambda>c. c \<noteq> CHR 0x00) p)"
  by (induction p) (auto simp: bind_fault_def)

lemma load_packet_fits:
  assumes "length packet < 1024"
  shows "load_packet packet = Inr (takeWhile (\<lambda>c. c \<noteq> CHR 0x00) packet)"
proof -
  have c: "CopyData fresh_buffer 0 packet = Inr (map Some packet @ replicate (1024 - length packet) None)"
    using assms CopyData_fits [of 0 packet fresh_buffer] by (simp add: fresh_buffer_def)
  have w: "buffer_write (map Some packet @ replicate (1024 - length packet) None) (length packet) (CHR 0x00) =
             Inr (map Some packet @ Some (CHR 0x00) # replicate (1023 - length packet) None)"
  proof -
    have "replicate (1024 - length packet) (None :: char option) = None # replicate (1023 - length packet) None"
      using assms by (cases "1024 - length packet") auto
    then show ?thesis
      using assms by (simp add: buffer_write_def list_update_append)
  qed
  show ?thesis
    by (simp add: load_packet_def c w bind_fault_def c_string_terminated)
qed

lemma load_packet_overflow:
  assumes "1024 \<le> length packet"
  shows "load_packet packet = Inl buffer_overflow"
proof (cases "length packet = 1024")
  case True
  then have "CopyData fresh_buffer 0 packet = Inr (map Some packet)"
    using CopyData_fits [of 0 packet fresh_buffer] by (simp add: fresh_buffer_def)
  then show ?thesis using True by (simp add: load_packet_def bind_fault_def buffer_write_def)
next
  case False
  then have "CopyData fresh_buffer 0 packet = Inl buffer_overflow"
    using assms by (intro CopyData_overflow) (auto simp: fresh_buffer_def)
  then show ?thesis by (simp add: load_packet_def bind_fault_def)
qed

lemma substr_no_overflow: "substr data pos len \<noteq> Inl buffer_overflow"
  by (simp add: substr_def)

lemma stoi_no_overflow: "stoi s \<noteq> Inl buffer_overflow"
  by (simp add: stoi_def Let_def split_def)

lemma stoull_no_overflow: "stoull s \<noteq> Inl buffer_overflow"
  by (simp add: stoull_def Let_def split_def)

lemma stod_no_overflow: "stod s \<noteq> Inl buffer_overflow"
  by (simp add: stod_def Let_def split_def split: option.splits)

lemma bind_fault_eq_Inl:
  "(bind_fault m f = Inl e) = (m = Inl e \<or> (\<exists>x. m = Inr x \<and> f x = Inl e))"
  by (cases m) (auto simp: bind_fault_def)

lemmas no_overflow = substr_no_overflow stoi_no_overflow stoull_no_overflow stod_no_overflow

lemma Decode_flat_no_overflow: "Decode_flat data \<noteq> Inl buffer_overflow"
  by (simp add: Decode_flat_def Let_def bind_fault_eq_Inl no_overflow)

lemma Decode_hier_no_overflow: "Decode_hier data \<noteq> Inl buffer_overflow"
  by (simp add: Decode_hier_def Let_def bind_fault_eq_Inl no_overflow)

text \<open>
  Claim C10. A packet of fewer than 1024 bytes is loaded without a fault, as the
  bytes before its first NUL, and neither gateway function ends in a buffer fault. A
  packet of 1024 bytes or more ends both gateway functions in the buffer fault; at
  exactly 1024 bytes the copy itself fits and it is the write of the terminating NUL
  at index 1024 that is out of bounds.
\<close>

theorem buffer_bound:
  "(length packet < 1024 \<longrightarrow>
      load_packet packet = Inr (takeWhile (\<lambda>c. c \<noteq> CHR 0x00) packet) \<and>
      ProcessCO2Data packet g \<noteq> Inl buffer_overflow \<and> ProcessData packet g \<noteq> Inl buffer_overflow) \<and>
   (1024 \<le> length packet \<longrightarrow>
      load_packet packet = Inl buffer_overflow \<and>
      ProcessCO2Data packet g = Inl buffer_overflow \<and> ProcessData packet g = Inl buffer_overflow) \<and>
   (length packet = 1024 \<longrightarrow> CopyData fresh_buffer 0 packet = Inr (map Some packet) \<and>
      buffer_write (map Some packet) (length packet) (CHR 0x00) = Inl buffer_overflow)"
proof (intro conjI impI)
  assume l: "length packet < 1024"
  show "load_packet packet = Inr (takeWhile (\<lambda>c. c \<noteq> CHR 0x00) packet)" using l by (rule load_packet_fits)
  show "ProcessCO2Data packet g \<noteq> Inl buffer_overflow"
    using Decode_flat_no_overflow
    by (auto simp: ProcessCO2Data_def load_packet_fits [OF l] bind_fault_def split: sum.splits decoded.splits)
  show "ProcessData packet g \<noteq> Inl buffer_overflow"
    using Decode_hier_no_overflow
    by (auto simp: ProcessData_def load_packet_fits [OF l] bind_fault_def split: sum.splits decoded.splits)
next
  assume l: "1024 \<le> length packet"
  show "load_packet packet = Inl buffer_overflow" using l by (rule load_packet_overflow)
  show "ProcessCO2Data packet g = Inl buffer_overflow"
    by (simp add: ProcessCO2Data_def load_packet_overflow [OF l] bind_fault_def)
  show "ProcessData packet g = Inl buffer_overflow"
    by (simp add: ProcessData_def load_packet_overflow [OF l] bind_fault_def)
next
  assume l: "length packet = 1024"
  show "CopyData fresh_buffer 0 packet = Inr (map Some packet)"
    using l CopyData_fits [of 0 packet fresh_buffer] by (simp add: fresh_buffer_def)
  show "buffer_write (map Some packet) (length packet) (CHR 0x00) = Inl buffer_overflow"
    by (simp add: buffer_write_def)
qed

theorem buffer_bound_witness:
  "length ''CO2'' < 1024 \<and> load_packet ''CO2'' = Inr ''CO2'' \<and>
   1024 \<le> length (replicate 1024 (CHR ''a'')) \<and> load_packet (replicate 1024 (CHR ''a'')) = Inl buffer_overflow \<and>
   length (replicate 1024 (CHR ''a'')) = 1024"
  using buffer_bound [of "''CO2''" "initial_world []"]
    buffer_bound [of "replicate 1024 (CHR ''a'')" "initial_world []"]
  by simp

subsection \<open>Evaluating the parsers on given texts\<close>

lemma sublist_eval: "sublist (x # xs) (y # ys) = (prefix (x # xs) (y # ys) \<or> sublist (x # xs) ys)"
  by (rule sublist_code)

lemma unat_minus_one_64: "unat (- 1 :: size_t) = 18446744073709551615"
  by (simp add: unsigned_minus_1_eq_mask mask_eq_exp_minus_1)

lemmas parse_eval = unat_minus_one_64 find_str_def substr_def stoi_def stoull_def skip_space_sign_def is_space_def is_digit_def
  digits_val_def digit_val_def bind_fault_def npos_def Let_def

lemma range_ok: "1 \<le> \<bar>q\<bar> \<Longrightarrow> \<bar>q\<bar> \<le> 10000000 \<Longrightarrow> \<not> range_error q"
proof -
  assume a: "1 \<le> \<bar>q\<bar>" and b: "\<bar>q\<bar> \<le> 10000000"
  have "(10000000 :: rat) < 2 ^ 1024 - 2 ^ 970" by simp
  moreover have "(1 :: rat) / 2 ^ 1022 \<le> 1" by simp
  ultimately show ?thesis using a b unfolding range_error_def by linarith
qed

lemmas stod_eval = stod_def strtod_finite_def mantissa_def exponent_part_def scale10_def to_lower_def
  is_xdigit_def

lemmas round_eval = round_binary64_def round_at_def binary_exponent_def bit_length.simps scale2_def
  round_half_even_def Let_def

lemma round_binary64_400: "round_binary64 400 = 400"
  by (simp add: round_eval)

lemma round_binary64_5: "round_binary64 5 = 5"
  by (simp add: round_eval)

lemma stod_400: "stod ''400'' = Inr (Finite 400)"
  by (simp add: stod_eval parse_eval range_ok round_binary64_400)

lemma stod_m5: "stod ''-5'' = Inr (Finite (- 5))"
  by (simp add: stod_eval parse_eval range_ok round_binary64_5)

lemma dec1: "Decode_flat ''SENSOR:7,COMPANY:1,CO2:400,TIME:5'' =
   Inr (Reading \<lparr>r_sensorId = 7, r_companyId = 1, r_co2Value = Finite 400, r_timestamp = 5\<rparr>)"
  by (simp add: Decode_flat_def parse_eval stod_400)

lemma dec2: "Decode_flat ''SENSOR:7,COMPANY:1,CO2:-5,TIME:5'' =
   Inr (Reading \<lparr>r_sensorId = 7, r_companyId = 1, r_co2Value = Finite (- 5), r_timestamp = 5\<rparr>)"
  by (simp add: Decode_flat_def parse_eval stod_m5)

lemma load_short: "length p < 1024 \<Longrightarrow> CHR 0x00 \<notin> set p \<Longrightarrow> load_packet p = Inr p"
  by (auto simp: load_packet_fits takeWhile_eq_all_conv)

subsection \<open>Payloads the parsers do not accept\<close>

lemma first_occurrence_None_iff: "(first_occurrence pat s = None) = (\<not> sublist pat s)"
  by (induction s) (auto simp: sublist_Cons_right)

lemma find_str_missing: "\<not> sublist pat data \<Longrightarrow> find_str data pat = npos"
  using first_occurrence_None_iff [of pat data] by (simp add: find_str_def)

lemma sublist_loaded:
  "sublist pat (takeWhile P packet) \<Longrightarrow> sublist pat packet"
  using sublist_takeWhile [of P packet] sublist_order.order_trans by blast

text \<open>
  Claim C2. A text in which one of the tags \<open>SENSOR:\<close>, \<open>COMPANY:\<close>, \<open>CO2:\<close>, \<open>TIME:\<close>
  (flat) or \<open>SENSOR:\<close>, \<open>ZONE:\<close>, \<open>CO2:\<close> (hierarchical) does not occur is decoded to
  \<open>MalformedPacket\<close>; for such a payload that fits the receive buffer, the gateway
  function returns with both maps as they were (the flat gateway adds a warning to
  the log, the hierarchical one changes nothing).
\<close>

theorem missing_tag_is_malformed:
  "(\<not> (sublist ''SENSOR:'' data \<and> sublist ''COMPANY:'' data \<and> sublist ''CO2:'' data \<and> sublist ''TIME:'' data)
      \<longrightarrow> Decode_flat data = Inr MalformedPacket) \<and>
   (\<not> (sublist ''SENSOR:'' data \<and> sublist ''ZONE:'' data \<and> sublist ''CO2:'' data)
      \<longrightarrow> Decode_hier data = Inr MalformedPacket) \<and>
   (length packet < 1024 \<and>
    \<not> (sublist ''SENSOR:'' packet \<and> sublist ''COMPANY:'' packet \<and> sublist ''CO2:'' packet \<and> sublist ''TIME:'' packet)
      \<longrightarrow> ProcessCO2Data packet g = Inr (g\<lparr>ns_log := ns_log g @ [MalformedWarning]\<rparr>)) \<and>
   (length packet < 1024 \<and>
    \<not> (sublist ''SENSOR:'' packet \<and> sublist ''ZONE:'' packet \<and> sublist ''CO2:'' packet)
      \<longrightarrow> ProcessData packet g = Inr g)"
proof -
  have flat: "Decode_flat d = Inr MalformedPacket"
    if "\<not> (sublist ''SENSOR:'' d \<and> sublist ''COMPANY:'' d \<and> sublist ''CO2:'' d \<and> sublist ''TIME:'' d)" for d
    using that find_str_missing [of _ d] by (auto simp: Decode_flat_def Let_def)
  have hier: "Decode_hier d = Inr MalformedPacket"
    if "\<not> (sublist ''SENSOR:'' d \<and> sublist ''ZONE:'' d \<and> sublist ''CO2:'' d)" for d
    using that find_str_missing [of _ d] by (auto simp: Decode_hier_def Let_def)
  have pflat: "ProcessCO2Data packet g = Inr (g\<lparr>ns_log := ns_log g @ [MalformedWarning]\<rparr>)"
    if l: "length packet < 1024"
      and m: "\<not> (sublist ''SENSOR:'' packet \<and> sublist ''COMPANY:'' packet \<and> sublist ''CO2:'' packet \<and> sublist ''TIME:'' packet)"
  proof -
    let ?d = "takeWhile (\<lambda>c. c \<noteq> CHR 0x00) packet"
    have "\<not> (sublist ''SENSOR:'' ?d \<and> sublist ''COMPANY:'' ?d \<and> sublist ''CO2:'' ?d \<and> sublist ''TIME:'' ?d)"
      using m sublist_loaded by blast
    then have "Decode_flat ?d = Inr MalformedPacket" by (rule flat)
    then show ?thesis
      by (simp add: ProcessCO2Data_def load_packet_fits [OF l] bind_fault_def)
  qed
  have phier: "ProcessData packet g = Inr g"
    if l: "length packet < 1024"
      and m: "\<not> (sublist ''SENSOR:'' packet \<and> sublist ''ZONE:'' packet \<and> sublist ''CO2:'' packet)"
  proof -
    let ?d = "takeWhile (\<lambda>c. c \<noteq> CHR 0x00) packet"
    have "\<not> (sublist ''SENSOR:'' ?d \<and> sublist ''ZONE:'' ?d \<and> sublist ''CO2:'' ?d)"
      using m sublist_loaded by blast
    then have "Decode_hier ?d = Inr MalformedPacket" by (rule hier)
    then show ?thesis
      by (simp add: ProcessData_def load_packet_fits [OF l] bind_fault_def)
  qed
  from flat [of data] hier [of data] pflat phier show ?thesis by blast
qed

theorem missing_tag_is_malformed_witness:
  "\<not> sublist ''TIME:'' ''SENSOR:7,COMPANY:1,CO2:400'' \<and>
   Decode_flat ''SENSOR:7,COMPANY:1,CO2:400'' = Inr MalformedPacket \<and>
   \<not> sublist ''ZONE:'' ''SENSOR:7,CO2:400'' \<and>
   Decode_hier ''SENSOR:7,CO2:400'' = Inr MalformedPacket \<and>
   length ''SENSOR:7,COMPANY:1,CO2:400'' < 1024 \<and>
   ProcessCO2Data ''SENSOR:7,COMPANY:1,CO2:400'' (initial_world []) =
     Inr ((initial_world [])\<lparr>ns_log := [MalformedWarning]\<rparr>) \<and>
   ProcessData ''SENSOR:7,CO2:400'' (initial_world []) = Inr (initial_world [])"
  using missing_tag_is_malformed [of "''SENSOR:7,COMPANY:1,CO2:400''" "''SENSOR:7,COMPANY:1,CO2:400''" "initial_world []"]
    missing_tag_is_malformed [of "''SENSOR:7,CO2:400''" "''SENSOR:7,CO2:400''" "initial_world []"]
  by (simp add: sublist_eval initial_world_def)

text \<open>
  Claim C3, evaluated at a payload in which every tag occurs and the sensor field is
  not a number: \<open>std::stoi\<close> throws, the exception leaves \<open>HandleRead\<close>, which nothing
  catches, and the packet that follows is never processed.
\<close>

theorem unparsable_number_aborts:
  "sublist ''SENSOR:'' ''SENSOR:abc,COMPANY:1,CO2:400,TIME:5'' \<and>
   sublist ''COMPANY:'' ''SENSOR:abc,COMPANY:1,CO2:400,TIME:5'' \<and>
   sublist ''CO2:'' ''SENSOR:abc,COMPANY:1,CO2:400,TIME:5'' \<and>
   sublist ''TIME:'' ''SENSOR:abc,COMPANY:1,CO2:400,TIME:5'' \<and>
   Decode_flat ''SENSOR:abc,COMPANY:1,CO2:400,TIME:5'' = Inl invalid_argument \<and>
   CarbonGateway_HandleRead [''SENSOR:abc,COMPANY:1,CO2:400,TIME:5'', ''SENSOR:7,COMPANY:1,CO2:400,TIME:5'']
       (initial_world []) =
     Aborted invalid_argument ((initial_world [])\<lparr>totalPacketsReceived := 1\<rparr>) \<and>
   Decode_hier ''SENSOR:abc,ZONE:1,CO2:400'' = Inl invalid_argument \<and>
   MainGateway_HandleRead [''SENSOR:abc,ZONE:1,CO2:400'', ''SENSOR:7,ZONE:1,CO2:400''] (initial_world []) =
     Aborted invalid_argument ((initial_world [])\<lparr>totalPacketsReceived := 1\<rparr>)"
proof -
  have f: "Decode_flat ''SENSOR:abc,COMPANY:1,CO2:400,TIME:5'' = Inl invalid_argument"
    by (simp add: Decode_flat_def parse_eval)
  have h: "Decode_hier ''SENSOR:abc,ZONE:1,CO2:400'' = Inl invalid_argument"
    by (simp add: Decode_hier_def parse_eval)
  have lf: "load_packet ''SENSOR:abc,COMPANY:1,CO2:400,TIME:5'' = Inr ''SENSOR:abc,COMPANY:1,CO2:400,TIME:5''"
    by (simp add: load_packet_fits)
  have lh: "load_packet ''SENSOR:abc,ZONE:1,CO2:400'' = Inr ''SENSOR:abc,ZONE:1,CO2:400''"
    by (simp add: load_packet_fits)
  have pf: "ProcessCO2Data ''SENSOR:abc,COMPANY:1,CO2:400,TIME:5'' g = Inl invalid_argument" for g :: world
    unfolding ProcessCO2Data_def lf by (simp add: f bind_fault_def)
  have ph: "ProcessData ''SENSOR:abc,ZONE:1,CO2:400'' g = Inl invalid_argument" for g :: world
    unfolding ProcessData_def lh by (simp add: h bind_fault_def)
  show ?thesis
    by (simp add: f h pf ph CarbonGateway_HandleRead_def MainGateway_HandleRead_def sublist_eval
        initial_world_def)
qed

subsection \<open>Aggregation in the flat gateway\<close>

lemma ProcessCO2Data_result:
  assumes "ProcessCO2Data p g = Inr g'"
  shows "(\<exists>data r. load_packet p = Inr data \<and> Decode_flat data = Inr (Reading r) \<and>
            g' = (record_reading (r_sensorId r) (r_co2Value r) g)\<lparr>ns_log := ns_log g @ [ReadingReceived (r_sensorId r)]\<rparr>) \<or>
         g' = g\<lparr>ns_log := ns_log g @ [MalformedWarning]\<rparr>"
  using assms
  by (auto simp: ProcessCO2Data_def bind_fault_def split: sum.splits decoded.splits)

lemma unat_Suc_32: "unat (c :: uint32) < 2 ^ 32 - 1 \<Longrightarrow> unat (c + 1) = unat c + 1"
  by (simp add: unat_word_ariths)

lemma counts_ok_record:
  assumes "counts_ok n g" "n < 2 ^ 32 - 1"
  shows "counts_ok (Suc n) ((record_reading sid v g)\<lparr>ns_log := l\<rparr>)"
proof -
  have dom: "dom (totalCO2BySensor g) = dom (packetCountBySensor g)"
    and cnt: "\<And>s c. packetCountBySensor g s = Some c \<Longrightarrow> 1 \<le> unat c \<and> unat c \<le> n"
    using assms(1) by (auto simp: counts_ok_def)
  have new: "1 \<le> unat ((case packetCountBySensor g sid of None \<Rightarrow> 0 | Some c \<Rightarrow> c) + 1) \<and>
             unat ((case packetCountBySensor g sid of None \<Rightarrow> 0 | Some c \<Rightarrow> c) + 1) \<le> Suc n"
  proof (cases "packetCountBySensor g sid")
    case None
    then show ?thesis by simp
  next
    case (Some c)
    then have "unat c \<le> n" using cnt by blast
    then have "unat (c + 1) = unat c + 1" using assms(2) by (intro unat_Suc_32) simp
    then show ?thesis using Some \<open>unat c \<le> n\<close> by simp
  qed
  show ?thesis
    unfolding counts_ok_def
  proof (intro conjI allI impI)
    show "dom (totalCO2BySensor ((record_reading sid v g)\<lparr>ns_log := l\<rparr>)) =
          dom (packetCountBySensor ((record_reading sid v g)\<lparr>ns_log := l\<rparr>))"
      using dom by (simp add: record_reading_def)
  next
    fix s c assume h: "packetCountBySensor ((record_reading sid v g)\<lparr>ns_log := l\<rparr>) s = Some c"
    show "1 \<le> unat c"
      using h new cnt [of s c] by (auto simp: record_reading_def split: if_splits)
    show "unat c \<le> Suc n"
      using h new cnt [of s c] by (auto simp: record_reading_def split: if_splits)
  qed
qed

lemma counts_ok_frame:
  "counts_ok n g \<Longrightarrow> totalCO2BySensor g' = totalCO2BySensor g \<Longrightarrow>
   packetCountBySensor g' = packetCountBySensor g \<Longrightarrow> n \<le> m \<Longrightarrow> counts_ok m g'"
  unfolding counts_ok_def by (metis le_trans)

lemma counts_ok_loop:
  assumes "counts_ok n g" "n + length ps < 2 ^ 32"
  shows "counts_ok (n + length ps) (state_of (gateway_loop ProcessCO2Data ps g))"
  using assms
proof (induction ps arbitrary: g n)
  case Nil
  then show ?case by (simp add: state_of_def)
next
  case (Cons p ps)
  show ?case
  proof (cases "p = []")
    case True
    have "counts_ok (n + length ps) (state_of (gateway_loop ProcessCO2Data ps g))"
      using Cons.prems by (intro Cons.IH) auto
    then show ?thesis
      using True by (auto intro: counts_ok_frame)
  next
    case False
    let ?g1 = "g\<lparr>totalPacketsReceived := totalPacketsReceived g + 1\<rparr>"
    have g1: "counts_ok n ?g1" using Cons.prems(1) by (simp add: counts_ok_def)
    show ?thesis
    proof (cases "ProcessCO2Data p ?g1")
      case (Inl e)
      then show ?thesis
        using False g1 by (auto simp: state_of_def intro: counts_ok_frame)
    next
      case (Inr g2)
      have "counts_ok (Suc n) g2"
        using ProcessCO2Data_result [OF Inr]
      proof
        assume "\<exists>data r. load_packet p = Inr data \<and> Decode_flat data = Inr (Reading r) \<and>
            g2 = (record_reading (r_sensorId r) (r_co2Value r) ?g1)\<lparr>ns_log := ns_log ?g1 @ [ReadingReceived (r_sensorId r)]\<rparr>"
        then show ?thesis
          using counts_ok_record [OF g1] Cons.prems(2) by auto
      next
        assume "g2 = ?g1\<lparr>ns_log := ns_log ?g1 @ [MalformedWarning]\<rparr>"
        then show ?thesis using g1 by (auto intro: counts_ok_frame)
      qed
      then have "counts_ok (Suc n + length ps) (state_of (gateway_loop ProcessCO2Data ps g2))"
        using Cons.prems(2) by (intro Cons.IH) auto
      then show ?thesis using False Inr by simp
    qed
  qed
qed

text \<open>
  Claim C6, as amended. \<open>HandleRead\<close> adds one to \<open>totalPacketsReceived\<close> for a packet
  that is not empty, whatever happens to it afterwards. When the packet decodes to a
  reading, the sensor's entry of \<open>totalCO2BySensor\<close> becomes the old sum (0 if it was
  absent) plus the reading's value and its entry of \<open>packetCountBySensor\<close> the old
  count plus one; the sum does not decrease when the value is not negative. When the
  packet does not decode to a reading, both maps are unchanged. After fewer than
  \<open>2 ^ 32\<close> packets, starting from empty maps, the maps have the same keys and every
  count is at least 1.
\<close>

theorem collector_accounting:
  "totalPacketsReceived (state_of (CarbonGateway_HandleRead [p] g)) =
     (if p = [] then totalPacketsReceived g else totalPacketsReceived g + 1) \<and>
   (load_packet p = Inr data \<and> Decode_flat data = Inr (Reading r) \<longrightarrow>
      totalCO2BySensor (state_of (CarbonGateway_HandleRead [p] g)) =
        (totalCO2BySensor g)(r_sensorId r \<mapsto>
           dadd (case totalCO2BySensor g (r_sensorId r) of None \<Rightarrow> Finite 0 | Some t \<Rightarrow> t) (r_co2Value r)) \<and>
      packetCountBySensor (state_of (CarbonGateway_HandleRead [p] g)) =
        (packetCountBySensor g)(r_sensorId r \<mapsto>
           (case packetCountBySensor g (r_sensorId r) of None \<Rightarrow> 0 | Some n \<Rightarrow> n) + 1) \<and>
      (\<forall>s v. (case totalCO2BySensor g (r_sensorId r) of None \<Rightarrow> Finite 0 | Some t \<Rightarrow> t) = Finite s \<and>
             r_co2Value r = Finite v \<and> 0 \<le> v \<longrightarrow>
             totalCO2BySensor (state_of (CarbonGateway_HandleRead [p] g)) (r_sensorId r) = Some (Finite (s + v)) \<and>
             s \<le> s + v)) \<and>
   ((\<forall>d rd. load_packet p = Inr d \<longrightarrow> Decode_flat d \<noteq> Inr (Reading rd)) \<longrightarrow>
      totalCO2BySensor (state_of (CarbonGateway_HandleRead [p] g)) = totalCO2BySensor g \<and>
      packetCountBySensor (state_of (CarbonGateway_HandleRead [p] g)) = packetCountBySensor g) \<and>
   (totalCO2BySensor g = Map.empty \<and> packetCountBySensor g = Map.empty \<and> length ps < 2 ^ 32 \<longrightarrow>
      counts_ok (length ps) (state_of (CarbonGateway_HandleRead ps g)))"
proof -
  have received: "totalPacketsReceived (state_of (CarbonGateway_HandleRead [p] g)) =
     (if p = [] then totalPacketsReceived g else totalPacketsReceived g + 1)"
    by (auto simp: CarbonGateway_HandleRead_def ProcessCO2Data_def bind_fault_def state_of_def
          record_reading_def Let_def split: sum.splits decoded.splits)
  have success: "totalCO2BySensor (state_of (CarbonGateway_HandleRead [p] g)) =
        (totalCO2BySensor g)(r_sensorId r \<mapsto>
           dadd (case totalCO2BySensor g (r_sensorId r) of None \<Rightarrow> Finite 0 | Some t \<Rightarrow> t) (r_co2Value r)) \<and>
      packetCountBySensor (state_of (CarbonGateway_HandleRead [p] g)) =
        (packetCountBySensor g)(r_sensorId r \<mapsto>
           (case packetCountBySensor g (r_sensorId r) of None \<Rightarrow> 0 | Some n \<Rightarrow> n) + 1) \<and>
      (\<forall>s v. (case totalCO2BySensor g (r_sensorId r) of None \<Rightarrow> Finite 0 | Some t \<Rightarrow> t) = Finite s \<and>
             r_co2Value r = Finite v \<and> 0 \<le> v \<longrightarrow>
             totalCO2BySensor (state_of (CarbonGateway_HandleRead [p] g)) (r_sensorId r) = Some (Finite (s + v)) \<and>
             s \<le> s + v)"
    if h: "load_packet p = Inr data \<and> Decode_flat data = Inr (Reading r)"
  proof -
    have ne: "p \<noteq> []"
      using h by (auto simp: load_packet_fits Decode_flat_def find_str_def npos_def)
    have out: "CarbonGateway_HandleRead [p] g =
        Returned ((record_reading (r_sensorId r) (r_co2Value r) (g\<lparr>totalPacketsReceived := totalPacketsReceived g + 1\<rparr>))
           \<lparr>ns_log := ns_log g @ [ReadingReceived (r_sensorId r)]\<rparr>)"
      using h ne by (simp add: CarbonGateway_HandleRead_def ProcessCO2Data_def bind_fault_def Let_def)
    show ?thesis
      unfolding out by (simp add: state_of_def record_reading_def)
  qed
  have failure: "totalCO2BySensor (state_of (CarbonGateway_HandleRead [p] g)) = totalCO2BySensor g \<and>
      packetCountBySensor (state_of (CarbonGateway_HandleRead [p] g)) = packetCountBySensor g"
    if "\<forall>d rd. load_packet p = Inr d \<longrightarrow> Decode_flat d \<noteq> Inr (Reading rd)"
    using that
    by (auto simp: CarbonGateway_HandleRead_def ProcessCO2Data_def bind_fault_def state_of_def
          Let_def split: sum.splits decoded.splits)
  have inv: "counts_ok (length ps) (state_of (CarbonGateway_HandleRead ps g))"
    if h: "totalCO2BySensor g = Map.empty \<and> packetCountBySensor g = Map.empty \<and> length ps < 2 ^ 32"
  proof -
    have "counts_ok 0 g" using h by (simp add: counts_ok_def)
    then show ?thesis
      using counts_ok_loop [of 0 g ps] h by (simp add: CarbonGateway_HandleRead_def)
  qed
  from received success failure inv show ?thesis by blast
qed

theorem collector_accounting_witness:
  "load_packet ''SENSOR:7,COMPANY:1,CO2:400,TIME:5'' = Inr ''SENSOR:7,COMPANY:1,CO2:400,TIME:5'' \<and>
   Decode_flat ''SENSOR:7,COMPANY:1,CO2:400,TIME:5'' =
     Inr (Reading \<lparr>r_sensorId = 7, r_companyId = 1, r_co2Value = Finite 400, r_timestamp = 5\<rparr>) \<and>
   totalPacketsReceived (state_of (CarbonGateway_HandleRead [''SENSOR:7,COMPANY:1,CO2:400,TIME:5''] (initial_world []))) = 1 \<and>
   totalCO2BySensor (state_of (CarbonGateway_HandleRead [''SENSOR:7,COMPANY:1,CO2:400,TIME:5''] (initial_world []))) 7 =
     Some (Finite 400) \<and>
   packetCountBySensor (state_of (CarbonGateway_HandleRead [''SENSOR:7,COMPANY:1,CO2:400,TIME:5''] (initial_world []))) 7 =
     Some 1 \<and>
   load_packet ''SENSOR:7'' = Inr ''SENSOR:7'' \<and> Decode_flat ''SENSOR:7'' = Inr MalformedPacket \<and>
   packetCountBySensor (state_of (CarbonGateway_HandleRead [''SENSOR:7''] (initial_world []))) = Map.empty \<and>
   length [''SENSOR:7,COMPANY:1,CO2:400,TIME:5''] < 2 ^ 32 \<and>
   counts_ok 1 (state_of (CarbonGateway_HandleRead [''SENSOR:7,COMPANY:1,CO2:400,TIME:5''] (initial_world [])))"
proof -
  have l: "load_packet ''SENSOR:7,COMPANY:1,CO2:400,TIME:5'' = Inr ''SENSOR:7,COMPANY:1,CO2:400,TIME:5''"
    by (simp add: load_short)
  have e: "totalCO2BySensor (initial_world []) = Map.empty" "packetCountBySensor (initial_world []) = Map.empty"
    "totalPacketsReceived (initial_world []) = 0"
    by (simp_all add: initial_world_def)
  have m1: "load_packet ''SENSOR:7'' = Inr ''SENSOR:7''"
    by (simp add: load_short)
  have m2: "Decode_flat ''SENSOR:7'' = Inr MalformedPacket"
    by (simp add: Decode_flat_def parse_eval)
  have m: "\<forall>d rd. load_packet ''SENSOR:7'' = Inr d \<longrightarrow> Decode_flat d \<noteq> Inr (Reading rd)"
    by (simp add: m1 m2)
  show ?thesis
    using collector_accounting [of "''SENSOR:7,COMPANY:1,CO2:400,TIME:5''" "initial_world []"
        "''SENSOR:7,COMPANY:1,CO2:400,TIME:5''"
        "\<lparr>r_sensorId = 7, r_companyId = 1, r_co2Value = Finite 400, r_timestamp = 5\<rparr>"
        "[''SENSOR:7,COMPANY:1,CO2:400,TIME:5'']"]
      collector_accounting [of "''SENSOR:7''" "initial_world []" "''SENSOR:7''"
        "\<lparr>r_sensorId = 7, r_companyId = 1, r_co2Value = Finite 400, r_timestamp = 5\<rparr>" "[]"]
      l dec1 e m m1 m2
    by simp
qed

text \<open>
  The sum does not only increase: the gateway accepts a negative value, which lowers
  the sum of the sensor from 400 to 395.
\<close>

theorem negative_reading_lowers_sum:
  "totalCO2BySensor (state_of (CarbonGateway_HandleRead [''SENSOR:7,COMPANY:1,CO2:400,TIME:5''] (initial_world []))) 7 =
     Some (Finite 400) \<and>
   totalCO2BySensor (state_of (CarbonGateway_HandleRead
      [''SENSOR:7,COMPANY:1,CO2:400,TIME:5'', ''SENSOR:7,COMPANY:1,CO2:-5,TIME:5''] (initial_world []))) 7 =
     Some (Finite 395)"
  by (simp add: CarbonGateway_HandleRead_def ProcessCO2Data_def load_short dec1 dec2 bind_fault_def
      state_of_def record_reading_def initial_world_def Let_def)

section \<open>Properties of the sensor application\<close>

lemma log_flat_fields [simp]:
  "sensors (log_flat topo l w) = sensors w"
  "sim_queue (log_flat topo l w) = sim_queue w"
  "sim_now (log_flat topo l w) = sim_now w"
  "sim_next_uid (log_flat topo l w) = sim_next_uid w"
  "send_calls (log_flat topo l w) = send_calls w"
  "totalPacketsSent (log_flat topo l w) = totalPacketsSent w"
  "totalPacketsReceived (log_flat topo l w) = totalPacketsReceived w"
  "totalCO2BySensor (log_flat topo l w) = totalCO2BySensor w"
  "packetCountBySensor (log_flat topo l w) = packetCountBySensor w"
  by (simp_all add: log_flat_def split: topology.splits)

lemma log_flat_ns_log:
  "ns_log (log_flat topo l w) = (case topo of Flat \<Rightarrow> ns_log w @ [l] | Hierarchical \<Rightarrow> ns_log w)"
  by (simp add: log_flat_def split: topology.splits)

lemma log_flat_update_log [simp]: "(log_flat topo l w)\<lparr>ns_log := k\<rparr> = w\<lparr>ns_log := k\<rparr>"
  by (simp add: log_flat_def split: topology.splits)

lemma successes_append [simp]: "successes (xs @ ys) = successes xs + successes ys"
  by (simp add: successes_def)

lemma SendCO2Reading_effect:
  "\<exists>data. send_calls (SendCO2Reading topo i v a w) =
            send_calls w @ [(i, data, socket_send (m_socket (sensors w ! i)) a)] \<and>
          totalPacketsSent (SendCO2Reading topo i v a w) =
            totalPacketsSent w + (if 0 < socket_send (m_socket (sensors w ! i)) a then 1 else 0)"
  by (simp add: SendCO2Reading_def Simulator_Schedule_def Let_def split_def)

lemma SendCO2Reading_counts:
  "totalPacketsSent w = c + of_nat (successes (send_calls w)) \<Longrightarrow>
   totalPacketsSent (SendCO2Reading topo i v a w) = c + of_nat (successes (send_calls (SendCO2Reading topo i v a w)))"
  using SendCO2Reading_effect [of topo i v a w]
  by (auto simp: successes_def)

lemma StopApplication_frame:
  "send_calls (StopApplication topo i w) = send_calls w \<and> totalPacketsSent (StopApplication topo i w) = totalPacketsSent w"
  by (simp add: StopApplication_def Simulator_Cancel_def Let_def split: option.splits)

lemma step_counts:
  assumes h: "totalPacketsSent w = c + of_nat (successes (send_calls w))"
  shows "totalPacketsSent (step topo e w) = c + of_nat (successes (send_calls (step topo e w)))"
proof (cases e)
  case (AppStart i t v a)
  then show ?thesis
    using h by (auto simp: StartApplication_def Let_def intro!: SendCO2Reading_counts)
next
  case (AppStop i t)
  then show ?thesis using h by (simp add: StopApplication_frame)
next
  case (RunNext v a)
  then show ?thesis
    using h by (auto split: option.splits intro!: SendCO2Reading_counts)
qed

lemma run_counts:
  "totalPacketsSent w = c + of_nat (successes (send_calls w)) \<Longrightarrow>
   totalPacketsSent (run topo es w) = c + of_nat (successes (send_calls (run topo es w)))"
  by (induction es arbitrary: w) (auto intro: step_counts)

lemma earliest_mem: "earliest q = Some e \<Longrightarrow> e \<in> set q"
  by (induction q arbitrary: e) (auto split: option.splits if_splits)

lemma length_sensors_Send [simp]:
  "length (sensors (SendCO2Reading topo j v a w)) = length (sensors w)"
  by (simp add: SendCO2Reading_def Simulator_Schedule_def Let_def split_def)

lemma length_sensors_Stop [simp]:
  "length (sensors (StopApplication topo j w)) = length (sensors w)"
  by (simp add: StopApplication_def Simulator_Cancel_def Let_def split: option.splits)

lemma length_sensors_step [simp]: "length (sensors (step topo e w)) = length (sensors w)"
  by (cases e) (auto simp: StartApplication_def Let_def split: option.splits)

lemma length_sensors_run [simp]: "length (sensors (run topo es w)) = length (sensors w)"
  by (induction es arbitrary: w) auto

lemma Send_other:
  assumes "j \<noteq> i"
  shows "sensors (SendCO2Reading topo j v a w) ! i = sensors w ! i"
    and "sends_of i (SendCO2Reading topo j v a w) = sends_of i w"
    and "\<forall>e\<in>set (sim_queue (SendCO2Reading topo j v a w)). snd (snd e) = i \<longrightarrow> e \<in> set (sim_queue w)"
  using assms by (auto simp: SendCO2Reading_def Simulator_Schedule_def Let_def split_def sends_of_def)

lemma Send_running:
  assumes "i < length (sensors w)" "m_running (sensors w ! i)"
  shows "sim_queue (SendCO2Reading topo i v a w) =
           sim_queue w @ [(sim_next_uid w, sim_now w + m_interval (sensors w ! i), i)]"
    and "m_sendEvent (sensors (SendCO2Reading topo i v a w) ! i) = Some (sim_next_uid w)"
    and "m_running (sensors (SendCO2Reading topo i v a w) ! i)"
  using assms by (auto simp: SendCO2Reading_def Simulator_Schedule_def Let_def split_def)

lemma Send_not_running:
  assumes "\<not> m_running (sensors w ! i)"
  shows "sim_queue (SendCO2Reading topo i v a w) = sim_queue w"
    and "sensors (SendCO2Reading topo i v a w) = sensors w"
  using assms by (auto simp: SendCO2Reading_def Simulator_Schedule_def Let_def split_def)

lemma Stop_other:
  assumes "j \<noteq> i"
  shows "sensors (StopApplication topo j w) ! i = sensors w ! i"
    and "sends_of i (StopApplication topo j w) = sends_of i w"
    and "set (sim_queue (StopApplication topo j w)) \<subseteq> set (sim_queue w)"
  using assms by (auto simp: StopApplication_def Simulator_Cancel_def Let_def sends_of_def split: option.splits)

lemma Stop_self:
  assumes "i < length (sensors w)"
  shows "\<not> m_running (sensors (StopApplication topo i w) ! i)"
    and "sends_of i (StopApplication topo i w) = sends_of i w"
    and "set (sim_queue (StopApplication topo i w)) \<subseteq> set (sim_queue w)"
    and "m_sendEvent (sensors (StopApplication topo i w) ! i) = m_sendEvent (sensors w ! i)"
    and "m_sendEvent (sensors w ! i) = Some u \<Longrightarrow> \<forall>e\<in>set (sim_queue (StopApplication topo i w)). fst e \<noteq> u"
  using assms by (auto simp: StopApplication_def Simulator_Cancel_def IsPending_def Let_def sends_of_def split: option.splits)

lemma Stop_quiet:
  assumes "tracked i w" "i < length (sensors w)"
  shows "quiet i (StopApplication topo i w)"
  unfolding quiet_def
proof (intro conjI ballI)
  show "\<not> m_running (sensors (StopApplication topo i w) ! i)" using assms Stop_self(1) by blast
next
  fix e assume e: "e \<in> set (sim_queue (StopApplication topo i w))"
  show "snd (snd e) \<noteq> i"
  proof
    assume "snd (snd e) = i"
    moreover have "e \<in> set (sim_queue w)" using e Stop_self(3) [OF assms(2)] by blast
    ultimately have "m_sendEvent (sensors w ! i) = Some (fst e)" using assms(1) by (auto simp: tracked_def)
    from Stop_self(5) [OF assms(2) this] e show False by blast
  qed
qed

lemma quiet_now: "quiet i (w\<lparr>sim_now := t\<rparr>) = quiet i w"
  by (simp add: quiet_def)

lemma sends_of_now: "sends_of i (w\<lparr>sim_now := t\<rparr>) = sends_of i w"
  by (simp add: sends_of_def)

lemma quiet_log_flat [simp]: "quiet i (log_flat topo l w) = quiet i w"
  by (simp add: quiet_def)

lemma tracked_log_flat [simp]: "tracked i (log_flat topo l w) = tracked i w"
  by (simp add: tracked_def)

lemma sends_of_log_flat [simp]: "sends_of i (log_flat topo l w) = sends_of i w"
  by (simp add: sends_of_def)

lemma quiet_frame:
  assumes "quiet i w" "sensors w' ! i = sensors w ! i"
    "\<forall>e\<in>set (sim_queue w'). snd (snd e) = i \<longrightarrow> e \<in> set (sim_queue w)"
  shows "quiet i w'"
  using assms unfolding quiet_def by metis

lemma quiet_Send_other:
  assumes "quiet i w" "j \<noteq> i"
  shows "quiet i (SendCO2Reading topo j v a w)"
  using quiet_frame [OF assms(1) Send_other(1) [OF assms(2)] Send_other(3) [OF assms(2)]] .

lemma quiet_Start_other:
  assumes "quiet i w" "j \<noteq> i"
  shows "quiet i (StartApplication topo j v a w)" "sends_of i (StartApplication topo j v a w) = sends_of i w"
proof -
  let ?w1 = "log_flat topo (SensorStarted (m_sensorId (sensors w ! j)))
               (w\<lparr>sensors := (sensors w)[j := (sensors w ! j)\<lparr>m_running := True, m_socket := Connected\<rparr>]\<rparr>)"
  have "quiet i ?w1" using assms by (simp add: quiet_def)
  then have "quiet i (SendCO2Reading topo j v a ?w1)" using assms(2) by (rule quiet_Send_other)
  then show "quiet i (StartApplication topo j v a w)" by (simp add: StartApplication_def Let_def)
  have "sends_of i ?w1 = sends_of i w" by (simp add: sends_of_def)
  then show "sends_of i (StartApplication topo j v a w) = sends_of i w"
    using Send_other(2) [OF assms(2), of topo v a ?w1] by (simp add: StartApplication_def Let_def)
qed

lemma quiet_Stop:
  assumes "quiet i w" "j < length (sensors w)"
  shows "quiet i (StopApplication topo j w)" "sends_of i (StopApplication topo j w) = sends_of i w"
proof -
  show "sends_of i (StopApplication topo j w) = sends_of i w"
    by (simp add: StopApplication_def Simulator_Cancel_def Let_def sends_of_def split: option.splits)
  show "quiet i (StopApplication topo j w)"
  proof (cases "j = i")
    case True
    then show ?thesis
      using assms Stop_self(1) [of i w topo] Stop_self(3) [of i w topo] unfolding quiet_def by blast
  next
    case False
    then show ?thesis
      using assms(1) Stop_other(1) [OF False, of topo w] Stop_other(3) [OF False, of topo w]
      unfolding quiet_def by (metis subsetD)
  qed
qed

lemma quiet_step:
  assumes q: "quiet i w" and ns: "\<not> is_start i e"
  shows "quiet i (step topo e w) \<and> sends_of i (step topo e w) = sends_of i w"
proof (cases e)
  case (AppStart j t v a)
  with ns have ji: "j \<noteq> i" by (simp add: is_start_def)
  have q1: "quiet i (w\<lparr>sim_now := t\<rparr>)" using q by (simp add: quiet_now)
  show ?thesis
    using AppStart q quiet_Start_other [OF q1 ji, of topo v a] by (simp add: sends_of_now)
next
  case (AppStop j t)
  have q1: "quiet i (w\<lparr>sim_now := t\<rparr>)" using q by (simp add: quiet_now)
  show ?thesis
  proof (cases "in_turn j t w")
    case False
    then show ?thesis using AppStop q by simp
  next
    case True
    then have jl: "j < length (sensors (w\<lparr>sim_now := t\<rparr>))" by (simp add: in_turn_def)
    show ?thesis
      using AppStop True quiet_Stop [OF q1 jl] by (simp add: sends_of_now)
  qed
next
  case (RunNext v a)
  show ?thesis
  proof (cases "earliest (sim_queue w)")
    case None
    then show ?thesis using RunNext q by simp
  next
    case (Some ev)
    obtain uid t j where ev: "ev = (uid, t, j)" by (cases ev) auto
    have "ev \<in> set (sim_queue w)" using Some by (rule earliest_mem)
    then have ji: "j \<noteq> i" using q ev by (auto simp: quiet_def)
    let ?w1 = "w\<lparr>sim_queue := filter (\<lambda>e. fst e \<noteq> uid) (sim_queue w), sim_now := t\<rparr>"
    have q1: "quiet i ?w1" using q by (auto simp: quiet_def)
    have s1: "sends_of i ?w1 = sends_of i w" by (simp add: sends_of_def)
    have "quiet i (SendCO2Reading topo j v a ?w1)" using q1 ji by (rule quiet_Send_other)
    moreover have "sends_of i (SendCO2Reading topo j v a ?w1) = sends_of i w"
      using Send_other(2) [OF ji, of topo v a ?w1] s1 by simp
    ultimately show ?thesis using RunNext Some ev by simp
  qed
qed

lemma quiet_run:
  assumes "quiet i w" "\<forall>e\<in>set es. \<not> is_start i e"
  shows "quiet i (run topo es w) \<and> sends_of i (run topo es w) = sends_of i w"
  using assms
proof (induction es arbitrary: w)
  case Nil
  then show ?case by simp
next
  case (Cons e es)
  have 1: "quiet i (step topo e w)" and 2: "sends_of i (step topo e w) = sends_of i w"
    using quiet_step [of i w e topo] Cons.prems by auto
  from Cons.IH [OF 1] Cons.prems(2) 2 show ?case by simp
qed

lemma quiet_tracked: "quiet i w \<Longrightarrow> tracked i w"
  unfolding quiet_def tracked_def by blast

lemma tracked_frame:
  assumes "tracked i w" "sensors w' ! i = sensors w ! i"
    "\<forall>e\<in>set (sim_queue w'). snd (snd e) = i \<longrightarrow> e \<in> set (sim_queue w)"
  shows "tracked i w'"
  using assms unfolding tracked_def by metis

lemma tracked_now: "tracked i (w\<lparr>sim_now := t\<rparr>) = tracked i w"
  by (simp add: tracked_def)

lemma tracked_Send_other:
  assumes "tracked i w" "j \<noteq> i"
  shows "tracked i (SendCO2Reading topo j v a w)"
  using tracked_frame [OF assms(1) Send_other(1) [OF assms(2)] Send_other(3) [OF assms(2)]] .

lemma tracked_Send_self:
  assumes none: "\<forall>e\<in>set (sim_queue w). snd (snd e) \<noteq> i" and il: "i < length (sensors w)"
  shows "tracked i (SendCO2Reading topo i v a w)"
proof (cases "m_running (sensors w ! i)")
  case True
  show ?thesis
    unfolding tracked_def Send_running(1) [OF il True] Send_running(2) [OF il True]
    using none by auto
next
  case False
  show ?thesis
    unfolding tracked_def Send_not_running [OF False] using none by auto
qed

lemma tracked_Start_self:
  assumes q: "quiet i w" and il: "i < length (sensors w)"
  shows "tracked i (StartApplication topo i v a w)"
proof -
  let ?w1 = "log_flat topo (SensorStarted (m_sensorId (sensors w ! i)))
               (w\<lparr>sensors := (sensors w)[i := (sensors w ! i)\<lparr>m_running := True, m_socket := Connected\<rparr>]\<rparr>)"
  have "\<forall>e\<in>set (sim_queue ?w1). snd (snd e) \<noteq> i" using q by (simp add: quiet_def)
  moreover have "i < length (sensors ?w1)" using il by simp
  ultimately have "tracked i (SendCO2Reading topo i v a ?w1)" by (rule tracked_Send_self)
  then show ?thesis by (simp add: StartApplication_def Let_def)
qed

lemma tracked_step:
  assumes tr: "tracked i w" and il: "i < length (sensors w)" and ns: "\<not> is_start i e"
  shows "tracked i (step topo e w)"
proof (cases e)
  case (AppStart j t v a)
  with ns have ji: "j \<noteq> i" by (simp add: is_start_def)
  let ?w1 = "log_flat topo (SensorStarted (m_sensorId (sensors w ! j)))
               ((w\<lparr>sim_now := t\<rparr>)\<lparr>sensors := (sensors w)[j := (sensors w ! j)\<lparr>m_running := True, m_socket := Connected\<rparr>]\<rparr>)"
  have "tracked i ?w1" using tr ji by (simp add: tracked_def)
  then have "tracked i (SendCO2Reading topo j v a ?w1)" using ji by (rule tracked_Send_other)
  then show ?thesis using AppStart tr by (simp add: StartApplication_def Let_def)
next
  case (AppStop j t)
  have t1: "tracked i (w\<lparr>sim_now := t\<rparr>)" using tr by (simp add: tracked_now)
  show ?thesis
  proof (cases "in_turn j t w")
    case False
    then show ?thesis using AppStop tr by simp
  next
    case True
    show ?thesis
    proof (cases "j = i")
      case True
      have "quiet i (StopApplication topo i (w\<lparr>sim_now := t\<rparr>))"
        using t1 il by (intro Stop_quiet) auto
      then show ?thesis using AppStop True \<open>in_turn j t w\<close> by (simp add: quiet_tracked)
    next
      case False
      have "tracked i (StopApplication topo j (w\<lparr>sim_now := t\<rparr>))"
        using tracked_frame [OF t1 Stop_other(1) [OF False]] Stop_other(3) [OF False, of topo "w\<lparr>sim_now := t\<rparr>"]
        by blast
      then show ?thesis using AppStop \<open>in_turn j t w\<close> by simp
    qed
  qed
next
  case (RunNext v a)
  show ?thesis
  proof (cases "earliest (sim_queue w)")
    case None
    then show ?thesis using RunNext tr by simp
  next
    case (Some ev)
    obtain uid t j where ev: "ev = (uid, t, j)" by (cases ev) auto
    have mem: "(uid, t, j) \<in> set (sim_queue w)" using Some ev earliest_mem by blast
    let ?w1 = "w\<lparr>sim_queue := filter (\<lambda>e. fst e \<noteq> uid) (sim_queue w), sim_now := t\<rparr>"
    have st: "step topo e w = SendCO2Reading topo j v a ?w1" using RunNext Some ev by simp
    show ?thesis
    proof (cases "j = i")
      case False
      have "tracked i ?w1" using tr by (simp add: tracked_def)
      then show ?thesis unfolding st using False by (rule tracked_Send_other)
    next
      case True
      have cur: "m_sendEvent (sensors w ! i) = Some uid"
        using tr mem True by (auto simp: tracked_def)
      have "\<forall>e\<in>set (sim_queue ?w1). snd (snd e) \<noteq> i"
        using tr cur by (auto simp: tracked_def)
      moreover have "i < length (sensors ?w1)" using il by simp
      ultimately show ?thesis unfolding st True by (rule tracked_Send_self)
    qed
  qed
qed

lemma tracked_run:
  assumes "tracked i w" "i < length (sensors w)" "\<forall>e\<in>set es. \<not> is_start i e"
  shows "tracked i (run topo es w)"
  using assms
proof (induction es arbitrary: w)
  case Nil
  then show ?case by simp
next
  case (Cons e es)
  have "tracked i (step topo e w)" using Cons.prems by (intro tracked_step) auto
  then show ?case using Cons.IH [of "step topo e w"] Cons.prems by simp
qed

lemma started_once_tracked:
  assumes "quiet i w" "i < length (sensors w)" "length (filter (is_start i) es) \<le> 1"
  shows "tracked i (run topo es w)"
  using assms
proof (induction es arbitrary: w)
  case Nil
  then show ?case by (simp add: quiet_tracked)
next
  case (Cons e es)
  show ?case
  proof (cases "is_start i e")
    case False
    have "quiet i (step topo e w)" using quiet_step [OF Cons.prems(1) False] by simp
    then show ?thesis using Cons.IH [of "step topo e w"] Cons.prems False by simp
  next
    case True
    then obtain t v a where e: "e = AppStart i t v a" by (auto simp: is_start_def split: event.splits)
    have rest: "\<forall>x\<in>set es. \<not> is_start i x"
      using Cons.prems(3) True by (auto simp: filter_empty_conv)
    have "tracked i (step topo e w)"
    proof (cases "in_turn i t w")
      case False
      then show ?thesis using e Cons.prems(1) by (simp add: quiet_tracked)
    next
      case True
      have "quiet i (w\<lparr>sim_now := t\<rparr>)" using Cons.prems(1) by (simp add: quiet_now)
      then have "tracked i (StartApplication topo i v a (w\<lparr>sim_now := t\<rparr>))"
        using Cons.prems(2) by (intro tracked_Start_self) auto
      then show ?thesis using e True by simp
    qed
    then show ?thesis using tracked_run [of i "step topo e w" es topo] Cons.prems(2) rest by simp
  qed
qed

lemma quiet_initial: "i < length cfg \<Longrightarrow> quiet i (initial_world cfg)"
  by (simp add: quiet_def initial_world_def Setup_def split_def)

lemma Stop_idempotent:
  assumes "i < length (sensors w)"
  shows "(StopApplication topo i (StopApplication topo i w))\<lparr>ns_log := l\<rparr> =
         (StopApplication topo i w)\<lparr>ns_log := l\<rparr>"
  using assms
  by (cases topo)
     (auto simp: StopApplication_def Simulator_Cancel_def IsPending_def Let_def split: option.splits)

lemma SendCO2Reading_log:
  "ns_log (SendCO2Reading topo i v a w) =
     ns_log w @ (if 0 < socket_send (m_socket (sensors w ! i)) a then [ReadingSent (m_sensorId (sensors w ! i))]
                 else case topo of Flat \<Rightarrow> [SendFailed (m_sensorId (sensors w ! i))] | Hierarchical \<Rightarrow> [])"
  by (simp add: SendCO2Reading_def Simulator_Schedule_def Let_def split_def log_flat_ns_log split: topology.splits)

lemma initial_counts: "totalPacketsSent (initial_world cfg) = 0 + of_nat (successes (send_calls (initial_world cfg)))"
  by (simp add: initial_world_def successes_def)

lemmas run_eval = initial_world_def Setup_def in_turn_def StartApplication_def StopApplication_def
  SendCO2Reading_def Simulator_Schedule_def Simulator_Cancel_def IsPending_def socket_send_def
  log_flat_def Let_def split_def successes_def sends_of_def is_start_def

text \<open>
  Claim C7, as amended. Every call of \<open>SendCO2Reading\<close> makes exactly one \<open>Send\<close> call
  (no retry); \<open>totalPacketsSent\<close> goes up by one exactly when that call returns a
  positive value and is unchanged otherwise; a failed send is logged by
  iot-connectivity.cc (\<open>SendFailed\<close>) and passed over silently by
  iot-hierarchical.cc. Over any run from the initial state the counter equals the
  number of successful \<open>Send\<close> calls of all sensors as a 32-bit value, and exactly
  while fewer than \<open>2 ^ 32\<close> calls have succeeded.
\<close>

theorem totalPacketsSent_counts_successful_sends:
  "(\<exists>data. send_calls (SendCO2Reading topo i v a w) =
             send_calls w @ [(i, data, socket_send (m_socket (sensors w ! i)) a)]) \<and>
   totalPacketsSent (SendCO2Reading topo i v a w) =
     (if 0 < socket_send (m_socket (sensors w ! i)) a then totalPacketsSent w + 1 else totalPacketsSent w) \<and>
   ns_log (SendCO2Reading topo i v a w) =
     ns_log w @ (if 0 < socket_send (m_socket (sensors w ! i)) a then [ReadingSent (m_sensorId (sensors w ! i))]
                 else case topo of Flat \<Rightarrow> [SendFailed (m_sensorId (sensors w ! i))] | Hierarchical \<Rightarrow> []) \<and>
   totalPacketsSent (run topo es (initial_world cfg)) =
     of_nat (successes (send_calls (run topo es (initial_world cfg)))) \<and>
   (successes (send_calls (run topo es (initial_world cfg))) < 2 ^ 32 \<longrightarrow>
      unat (totalPacketsSent (run topo es (initial_world cfg))) =
        successes (send_calls (run topo es (initial_world cfg))))"
proof -
  have r: "totalPacketsSent (run topo es (initial_world cfg)) =
     of_nat (successes (send_calls (run topo es (initial_world cfg))))"
    using run_counts [OF initial_counts, of topo es cfg] by simp
  show ?thesis
    using SendCO2Reading_effect [of topo i v a w] r
    by (auto simp: SendCO2Reading_log unat_of_nat_32)
qed

theorem totalPacketsSent_counts_successful_sends_witness:
  "successes (send_calls (run Flat [AppStart 0 1000000000 (Finite 0) 40, RunNext (Finite 0) (- 1), RunNext (Finite 0) 39]
      (initial_world [(1, 1, Finite 400)]))) < 2 ^ 32 \<and>
   unat (totalPacketsSent (run Flat [AppStart 0 1000000000 (Finite 0) 40, RunNext (Finite 0) (- 1), RunNext (Finite 0) 39]
      (initial_world [(1, 1, Finite 400)]))) = 2"
  using totalPacketsSent_counts_successful_sends [of Flat 0 "Finite 0" 40 "initial_world [(1, 1, Finite 400)]"
     "[AppStart 0 1000000000 (Finite 0) 40, RunNext (Finite 0) (- 1), RunNext (Finite 0) 39]" "[(1, 1, Finite 400)]"]
  by (simp add: run_eval)

text \<open>
  The claim as stated fails in iot-hierarchical.cc: a sensor starts, the transport
  refuses its packet, and nothing is logged.
\<close>

theorem hierarchical_failed_send_not_logged:
  "map (\<lambda>c. snd (snd c)) (send_calls (run Hierarchical [AppStart 0 1000000000 (Finite 0) (- 1)] (initial_world [(1, 1, Finite 400)]))) = [- 1] \<and>
   ns_log (run Hierarchical [AppStart 0 1000000000 (Finite 0) (- 1)] (initial_world [(1, 1, Finite 400)])) = []"
  by (simp add: run_eval)

text \<open>
  Claim C9. Take any run \<open>es1\<close> from the initial state in which the framework starts
  sensor \<open>i\<close> at most once. In the state it reaches: if the sensor is running, a
  call of \<open>SendCO2Reading\<close> appends an event for the sensor at \<open>now + m_interval\<close>,
  whatever the random draw and whatever the transport answers. \<open>StopApplication\<close>
  leaves the sensor not running, its \<open>m_sendEvent\<close> not pending and no event of the
  sensor in the simulator's list; in every continuation \<open>es2\<close> that does not start
  the sensor again, the sensor makes no further \<open>Send\<close> call. A second
  \<open>StopApplication\<close> changes nothing but the log.
\<close>

theorem sensor_schedule_and_stop:
  assumes il: "i < length cfg"
    and once: "length (filter (is_start i) es1) \<le> 1"
    and nostart: "\<forall>e\<in>set es2. \<not> is_start i e"
  shows
   "(m_running (sensors (run topo es1 (initial_world cfg)) ! i) \<longrightarrow>
       (\<forall>v a. sim_queue (SendCO2Reading topo i v a (run topo es1 (initial_world cfg))) =
                sim_queue (run topo es1 (initial_world cfg)) @
                  [(sim_next_uid (run topo es1 (initial_world cfg)),
                    sim_now (run topo es1 (initial_world cfg)) +
                      m_interval (sensors (run topo es1 (initial_world cfg)) ! i), i)])) \<and>
    \<not> m_running (sensors (StopApplication topo i (run topo es1 (initial_world cfg))) ! i) \<and>
    \<not> IsPending (m_sendEvent (sensors (StopApplication topo i (run topo es1 (initial_world cfg))) ! i))
         (StopApplication topo i (run topo es1 (initial_world cfg))) \<and>
    (\<forall>e\<in>set (sim_queue (StopApplication topo i (run topo es1 (initial_world cfg)))). snd (snd e) \<noteq> i) \<and>
    sends_of i (run topo es2 (StopApplication topo i (run topo es1 (initial_world cfg)))) =
      sends_of i (run topo es1 (initial_world cfg)) \<and>
    (StopApplication topo i (StopApplication topo i (run topo es1 (initial_world cfg))))\<lparr>ns_log := []\<rparr> =
      (StopApplication topo i (run topo es1 (initial_world cfg)))\<lparr>ns_log := []\<rparr>"
proof -
  let ?w = "run topo es1 (initial_world cfg)"
  have len: "i < length (sensors ?w)" using il by (simp add: initial_world_def)
  have "i < length (sensors (initial_world cfg))" using il by (simp add: initial_world_def)
  then have tr: "tracked i ?w"
    using quiet_initial [OF il] once by (intro started_once_tracked) auto
  have q: "quiet i (StopApplication topo i ?w)" using tr len by (rule Stop_quiet)
  have a: "m_running (sensors ?w ! i) \<longrightarrow>
       (\<forall>v a. sim_queue (SendCO2Reading topo i v a ?w) =
                sim_queue ?w @ [(sim_next_uid ?w, sim_now ?w + m_interval (sensors ?w ! i), i)])"
    using Send_running(1) [OF len] by blast
  have b: "\<not> m_running (sensors (StopApplication topo i ?w) ! i)"
    and d: "\<forall>e\<in>set (sim_queue (StopApplication topo i ?w)). snd (snd e) \<noteq> i"
    using q by (auto simp: quiet_def)
  have c: "\<not> IsPending (m_sendEvent (sensors (StopApplication topo i ?w) ! i)) (StopApplication topo i ?w)"
  proof (cases "m_sendEvent (sensors ?w ! i)")
    case None
    then show ?thesis using Stop_self(4) [OF len, of topo] by (simp add: IsPending_def)
  next
    case (Some u)
    then show ?thesis
      using Stop_self(4) [OF len, of topo] Stop_self(5) [OF len Some, of topo]
      by (auto simp: IsPending_def)
  qed
  have e: "sends_of i (run topo es2 (StopApplication topo i ?w)) = sends_of i ?w"
    using quiet_run [OF q nostart, of topo] Stop_self(2) [OF len, of topo] by simp
  have f: "(StopApplication topo i (StopApplication topo i ?w))\<lparr>ns_log := []\<rparr> =
      (StopApplication topo i ?w)\<lparr>ns_log := []\<rparr>"
    using len by (rule Stop_idempotent)
  from a b c d e f show ?thesis by blast
qed

theorem sensor_schedule_and_stop_witness:
  "(0::nat) < length [(1 :: uint32, 1 :: uint32, Finite 400)] \<and>
   length (filter (is_start 0) [AppStart 0 1000000000 (Finite 0) 40, RunNext (Finite 0) 40]) \<le> 1 \<and>
   list_all (\<lambda>e. \<not> is_start 0 e) [RunNext (Finite 0) 40, AppStop 0 20000000000, RunNext (Finite 0) 40] \<and>
   m_running (sensors (run Flat [AppStart 0 1000000000 (Finite 0) 40, RunNext (Finite 0) 40] (initial_world [(1, 1, Finite 400)])) ! 0) \<and>
   sim_queue (run Flat [AppStart 0 1000000000 (Finite 0) 40, RunNext (Finite 0) 40] (initial_world [(1, 1, Finite 400)])) =
     [(1, 11000000000, 0)] \<and>
   sim_queue (StopApplication Flat 0 (run Flat [AppStart 0 1000000000 (Finite 0) 40, RunNext (Finite 0) 40] (initial_world [(1, 1, Finite 400)]))) = [] \<and>
   length (sends_of 0 (run Flat [RunNext (Finite 0) 40, AppStop 0 20000000000, RunNext (Finite 0) 40]
     (StopApplication Flat 0 (run Flat [AppStart 0 1000000000 (Finite 0) 40, RunNext (Finite 0) 40] (initial_world [(1, 1, Finite 400)]))))) = 2"
  using sensor_schedule_and_stop [of 0 "[(1, 1, Finite 400)]" "[AppStart 0 1000000000 (Finite 0) 40, RunNext (Finite 0) 40]"
      "[RunNext (Finite 0) 40, AppStop 0 20000000000, RunNext (Finite 0) 40]" Flat]
  by (simp add: run_eval)

section \<open>Properties of the local access point\<close>

lemma AP_HandleRead_append:
  "AP_HandleRead (ps @ qs) ap = AP_HandleRead qs (AP_HandleRead ps ap)"
  by (induction ps arbitrary: ap) auto

lemma AP_HandleRead_batches:
  "foldl (\<lambda>ap batch. AP_HandleRead batch ap) ap batches = AP_HandleRead (concat batches) ap"
  by (induction batches arbitrary: ap) (auto simp: AP_HandleRead_append)

lemma AP_received_count:
  "m_packetsReceived (AP_HandleRead ps ap) =
     m_packetsReceived ap + of_nat (length (filter (\<lambda>p. fst p \<noteq> []) ps))"
  by (induction ps arbitrary: ap) (auto simp: ForwardToGateway_def Let_def)

lemma AP_forwarded_count:
  "m_packetsForwarded (AP_HandleRead ps ap) =
     m_packetsForwarded ap + of_nat (length (filter (\<lambda>p. fst p \<noteq> [] \<and> 0 < snd p) ps))"
  by (induction ps arbitrary: ap) (auto simp: ForwardToGateway_def Let_def)

lemma AP_forward_calls:
  "forward_calls (AP_HandleRead ps ap) = forward_calls ap @ filter (\<lambda>p. fst p \<noteq> []) ps"
  by (induction ps arbitrary: ap) (auto simp: ForwardToGateway_def Let_def)

text \<open>
  Claim C8, as amended. After any sequence of \<open>HandleRead\<close> calls on a new access
  point: the \<open>Send\<close> calls of the forwarding socket are the non-empty packets
  received, unchanged and in order; \<open>m_packetsReceived\<close> and \<open>m_packetsForwarded\<close>
  are the numbers of non-empty packets and of successful forwards as 32-bit values;
  and \<open>m_packetsForwarded \<le> m_packetsReceived\<close> as long as fewer than \<open>2 ^ 32\<close>
  non-empty packets have been received.
\<close>

theorem AP_counters:
  "forward_calls (foldl (\<lambda>ap batch. AP_HandleRead batch ap) new_access_point batches) =
     filter (\<lambda>p. fst p \<noteq> []) (concat batches) \<and>
   m_packetsReceived (foldl (\<lambda>ap batch. AP_HandleRead batch ap) new_access_point batches) =
     of_nat (length (filter (\<lambda>p. fst p \<noteq> []) (concat batches))) \<and>
   m_packetsForwarded (foldl (\<lambda>ap batch. AP_HandleRead batch ap) new_access_point batches) =
     of_nat (length (filter (\<lambda>p. fst p \<noteq> [] \<and> 0 < snd p) (concat batches))) \<and>
   (length (filter (\<lambda>p. fst p \<noteq> []) (concat batches)) < 2 ^ 32 \<longrightarrow>
      m_packetsForwarded (foldl (\<lambda>ap batch. AP_HandleRead batch ap) new_access_point batches)
        \<le> m_packetsReceived (foldl (\<lambda>ap batch. AP_HandleRead batch ap) new_access_point batches))"
proof -
  have le: "length (filter (\<lambda>p. fst p \<noteq> [] \<and> 0 < snd p) ps) \<le> length (filter (\<lambda>p. fst p \<noteq> []) ps)"
    for ps :: "(char list \<times> int) list"
    by (induction ps) auto
  show ?thesis
    unfolding AP_HandleRead_batches
    using le [of "concat batches"]
    by (simp add: AP_received_count AP_forwarded_count AP_forward_calls new_access_point_def of_nat_mono_32)
qed

theorem AP_counters_witness:
  "length (filter (\<lambda>p. fst p \<noteq> []) (concat [[(''ab'', 2), ([], 0)], [(''c'', - 1 :: int)]])) < 2 ^ 32 \<and>
   m_packetsForwarded (foldl (\<lambda>ap batch. AP_HandleRead batch ap) new_access_point [[(''ab'', 2), ([], 0)], [(''c'', - 1)]]) = 1 \<and>
   m_packetsReceived (foldl (\<lambda>ap batch. AP_HandleRead batch ap) new_access_point [[(''ab'', 2), ([], 0)], [(''c'', - 1)]]) = 2 \<and>
   forward_calls (foldl (\<lambda>ap batch. AP_HandleRead batch ap) new_access_point [[(''ab'', 2), ([], 0)], [(''c'', - 1)]]) =
     [(''ab'', 2), (''c'', - 1)]"
  using AP_counters [of "[[(''ab'', 2), ([], 0)], [(''c'', - 1)]]"]
  by simp

text \<open>
  The inequality as stated fails when the 32-bit counters wrap: one packet whose
  forwarding fails, then \<open>2 ^ 32 - 1\<close> packets forwarded with success, leave
  \<open>m_packetsReceived = 0\<close> and \<open>m_packetsForwarded = 2 ^ 32 - 1\<close>.
\<close>

theorem AP_wrap_counterexample:
  "\<not> m_packetsForwarded (AP_HandleRead ((''x'', - 1) # replicate 4294967295 (''x'', 1)) new_access_point)
      \<le> m_packetsReceived (AP_HandleRead ((''x'', - 1) # replicate 4294967295 (''x'', 1)) new_access_point)"
  by (simp add: AP_received_count AP_forwarded_count new_access_point_def ForwardToGateway_def)

section \<open>Properties of the wire format\<close>

subsection \<open>Decimal texts of unsigned integers\<close>

lemma digit_char_props:
  assumes "d < 10"
  shows "is_digit (digit_char d)" "digit_val (digit_char d) = d"
  using assms by (simp_all add: is_digit_def digit_val_def digit_char_def)

lemma show_nat_digits: "\<forall>c\<in>set (show_nat n). is_digit c"
proof (induction n rule: show_nat.induct)
  case (1 n)
  show ?case
  proof (cases "n < 10")
    case True
    then show ?thesis by (subst show_nat.simps) (simp add: digit_char_props)
  next
    case False
    then show ?thesis
      using 1 by (subst show_nat.simps) (auto simp: digit_char_props)
  qed
qed

lemma show_nat_nonempty: "show_nat n \<noteq> []"
  by (subst show_nat.simps) simp

lemma digits_val_append:
  "digits_val (xs @ ys) = digits_val xs * 10 ^ length ys + digits_val ys"
proof -
  have h: "foldl (\<lambda>acc c. 10 * acc + digit_val c) a ys =
             a * 10 ^ length ys + foldl (\<lambda>acc c. 10 * acc + digit_val c) 0 ys" for a
  proof (induction ys arbitrary: a rule: rev_induct)
    case Nil
    show ?case by simp
  next
    case (snoc y ys)
    show ?case using snoc.IH [of a] by (simp add: algebra_simps)
  qed
  show ?thesis unfolding digits_val_def foldl_append by (rule h)
qed

lemma digits_val_single: "digits_val [c] = digit_val c"
  by (simp add: digits_val_def)

lemma digits_val_show_nat: "digits_val (show_nat n) = n"
proof (induction n rule: show_nat.induct)
  case (1 n)
  show ?case
  proof (cases "n < 10")
    case True
    then show ?thesis by (subst show_nat.simps) (simp add: digits_val_single digit_char_props)
  next
    case False
    then have "digits_val (show_nat (n div 10)) = n div 10" using 1 by simp
    then show ?thesis
      using False
      by (subst show_nat.simps) (simp add: digits_val_append digits_val_single digit_char_props)
  qed
qed

lemma length_show_nat_le: "n < 10 ^ k \<Longrightarrow> 0 < k \<Longrightarrow> length (show_nat n) \<le> k"
proof (induction n arbitrary: k rule: show_nat.induct)
  case (1 n)
  show ?case
  proof (cases "n < 10")
    case True
    then show ?thesis using 1(3) by (subst show_nat.simps) simp
  next
    case False
    obtain j where k: "k = Suc j" using 1(3) by (cases k) auto
    have "j \<noteq> 0" using False 1(2) k by (cases j) auto
    moreover have "n div 10 < 10 ^ j" using 1(2) k by (simp add: less_mult_imp_div_less mult.commute)
    ultimately have "length (show_nat (n div 10)) \<le> j" using 1(1) [OF False, of j] by simp
    then show ?thesis using False k by (subst show_nat.simps) simp
  qed
qed

lemma show_nat_bounds:
  "0 < n \<Longrightarrow> 10 ^ (length (show_nat n) - 1) \<le> n \<and> n < 10 ^ length (show_nat n)"
proof (induction n rule: show_nat.induct)
  case (1 n)
  show ?case
  proof (cases "n < 10")
    case True
    then show ?thesis using 1(2) by (subst (1 2) show_nat.simps) simp
  next
    case False
    then have pos: "0 < n div 10" by simp
    have ih: "10 ^ (length (show_nat (n div 10)) - 1) \<le> n div 10 \<and> n div 10 < 10 ^ length (show_nat (n div 10))"
      using 1(1) [OF False pos] .
    have len: "length (show_nat n) = Suc (length (show_nat (n div 10)))"
      using False by (subst show_nat.simps) simp
    have ne: "length (show_nat (n div 10)) \<noteq> 0" using show_nat_nonempty by simp
    then obtain j where j: "length (show_nat (n div 10)) = Suc j" by (cases "length (show_nat (n div 10))") auto
    have "10 ^ j * 10 \<le> n" using ih j by (simp add: less_eq_div_iff_mult_less_eq)
    moreover have "n < 10 ^ Suc j * 10" using ih j by (simp add: div_less_iff_less_mult)
    ultimately show ?thesis unfolding len j by (simp add: mult.commute)
  qed
qed

lemma length_pad_digits [simp]: "length (pad_digits k n) = k"
  by (induction k arbitrary: n) auto

lemma pad_digits_digits: "\<forall>c\<in>set (pad_digits k n). is_digit c"
  by (induction k arbitrary: n) (auto simp: digit_char_props)

lemma digits_val_pad_digits: "digits_val (pad_digits k n) = n mod 10 ^ k"
proof (induction k arbitrary: n)
  case 0
  show ?case by (simp add: digits_val_def)
next
  case (Suc k)
  have "n mod (10 * 10 ^ k) = (n div 10 mod 10 ^ k) * 10 + n mod 10"
    by (simp add: mod_mult2_eq mult.commute)
  then show ?case
    using Suc [of "n div 10"]
    by (simp add: digits_val_append digits_val_single digit_char_props)
qed

lemma all_same_replicate: "\<forall>x\<in>set xs. x = c \<Longrightarrow> xs = replicate (length xs) c"
  by (induction xs) auto

lemma strip_zeros_decomp: "\<exists>z. ds = strip_zeros ds @ replicate z (CHR ''0'')"
proof -
  let ?t = "takeWhile (\<lambda>c. c = CHR ''0'') (rev ds)"
  have t: "?t = replicate (length ?t) (CHR ''0'')"
    by (rule all_same_replicate) (auto dest: set_takeWhileD)
  have "rev ds = ?t @ dropWhile (\<lambda>c. c = CHR ''0'') (rev ds)" by simp
  then have "rev (rev ds) = rev (?t @ dropWhile (\<lambda>c. c = CHR ''0'') (rev ds))" by (rule arg_cong)
  then have "ds = strip_zeros ds @ rev ?t" by (simp add: strip_zeros_def del: takeWhile_dropWhile_id)
  moreover have "rev ?t = replicate (length ?t) (CHR ''0'')" by (subst t) simp
  ultimately have "ds = strip_zeros ds @ replicate (length ?t) (CHR ''0'')" by simp
  then show ?thesis by blast
qed

lemma digits_val_zeros: "digits_val (replicate z (CHR ''0'')) = 0"
proof (induction z)
  case 0
  show ?case by (simp add: digits_val_def)
next
  case (Suc z)
  have "replicate (Suc z) (CHR ''0'') = replicate z (CHR ''0'') @ [CHR ''0'']"
    by (simp add: replicate_append_same)
  then show ?case
    using Suc by (simp add: digits_val_append digits_val_single digit_val_def del: replicate_Suc)
qed

lemma strip_zeros_value:
  "\<exists>z. length ds = length (strip_zeros ds) + z \<and> digits_val ds = digits_val (strip_zeros ds) * 10 ^ z"
proof -
  obtain z where z: "ds = strip_zeros ds @ replicate z (CHR ''0'')" using strip_zeros_decomp by blast
  have "length ds = length (strip_zeros ds) + z" by (subst z) simp
  moreover have "digits_val ds = digits_val (strip_zeros ds) * 10 ^ z"
    by (subst z) (simp add: digits_val_append digits_val_zeros)
  ultimately show ?thesis by blast
qed

lemma strip_zeros_digits: "\<forall>c\<in>set ds. is_digit c \<Longrightarrow> \<forall>c\<in>set (strip_zeros ds). is_digit c"
  by (auto simp: strip_zeros_def dest: set_dropWhileD)

lemma digit_not_space_sign:
  "is_digit c \<Longrightarrow> \<not> is_space c \<and> c \<noteq> CHR ''-'' \<and> c \<noteq> CHR ''+''"
  by (auto simp: is_digit_def is_space_def)

lemma skip_space_sign_digits:
  "ds \<noteq> [] \<Longrightarrow> is_digit (hd ds) \<Longrightarrow> skip_space_sign (ds @ rest) = (False, ds @ rest)"
  by (cases ds) (auto simp: skip_space_sign_def dest: digit_not_space_sign)

lemma takeWhile_digits: "\<forall>c\<in>set ds. is_digit c \<Longrightarrow> takeWhile is_digit ds = ds"
  by (simp add: takeWhile_eq_all_conv)

lemma stoi_show_nat:
  assumes "n \<le> 2147483647"
  shows "stoi (show_nat n) = Inr (int n)"
proof -
  have d: "\<forall>c\<in>set (show_nat n). is_digit c" by (rule show_nat_digits)
  have ne: "show_nat n \<noteq> []" by (rule show_nat_nonempty)
  then have "is_digit (hd (show_nat n))" using d by (cases "show_nat n") auto
  then have "skip_space_sign (show_nat n) = (False, show_nat n)"
    using skip_space_sign_digits [OF ne, of "[]"] by simp
  then show ?thesis
    using assms ne by (simp add: stoi_def takeWhile_digits [OF d] digits_val_show_nat)
qed

lemma stoull_show_nat:
  assumes "n \<le> 18446744073709551615"
  shows "stoull (show_nat n) = Inr (of_nat n)"
proof -
  have d: "\<forall>c\<in>set (show_nat n). is_digit c" by (rule show_nat_digits)
  have ne: "show_nat n \<noteq> []" by (rule show_nat_nonempty)
  then have "is_digit (hd (show_nat n))" using d by (cases "show_nat n") auto
  then have "skip_space_sign (show_nat n) = (False, show_nat n)"
    using skip_space_sign_digits [OF ne, of "[]"] by simp
  then show ?thesis
    using assms ne by (simp add: stoull_def takeWhile_digits [OF d] digits_val_show_nat)
qed

subsection \<open>Parsing the fixed notation\<close>

lemma fixed_text_numeric: "\<forall>c\<in>set (fixed_text ip k fm). is_numeric c"
  using show_nat_digits [of ip] strip_zeros_digits [OF pad_digits_digits, of k fm]
  by (auto simp: fixed_text_def is_numeric_def)

lemma fixed_text_head: "\<exists>c cs. fixed_text ip k fm = c # cs \<and> is_digit c"
  using show_nat_digits [of ip] show_nat_nonempty [of ip]
  by (cases "show_nat ip") (auto simp: fixed_text_def)

lemma digit_lower: "is_digit c \<Longrightarrow> to_lower c = c"
  by (auto simp: is_digit_def to_lower_def)

lemma takeWhile_digits_stop:
  "\<forall>c\<in>set ds. is_digit c \<Longrightarrow> \<not> is_digit x \<Longrightarrow> takeWhile is_digit (ds @ x # rest) = ds"
  by (simp add: takeWhile_append2)

lemma dropWhile_digits_stop:
  "\<forall>c\<in>set ds. is_digit c \<Longrightarrow> \<not> is_digit x \<Longrightarrow> dropWhile is_digit (ds @ x # rest) = x # rest"
  by (simp add: dropWhile_append2)

lemma dropWhile_digits: "\<forall>c\<in>set ds. is_digit c \<Longrightarrow> dropWhile is_digit ds = []"
  by simp

lemma dot_not_digit: "\<not> is_digit (CHR ''.'')"
  by (simp add: is_digit_def)

lemma mantissa_fixed:
  "mantissa is_digit (fixed_text ip k fm) = (show_nat ip, strip_zeros (pad_digits k fm), [])"
proof -
  have d1: "\<forall>c\<in>set (show_nat ip). is_digit c" by (rule show_nat_digits)
  have d2: "\<forall>c\<in>set (strip_zeros (pad_digits k fm)). is_digit c"
    by (rule strip_zeros_digits [OF pad_digits_digits])
  show ?thesis
  proof (cases "strip_zeros (pad_digits k fm) = []")
    case True
    then show ?thesis
      by (simp add: fixed_text_def mantissa_def takeWhile_digits [OF d1] dropWhile_digits [OF d1])
  next
    case False
    then show ?thesis
      by (simp add: fixed_text_def mantissa_def takeWhile_digits_stop [OF d1 dot_not_digit]
           dropWhile_digits_stop [OF d1 dot_not_digit] takeWhile_digits [OF d2] dropWhile_digits [OF d2])
  qed
qed

lemma fixed_value:
  assumes "fm < 10 ^ k"
  shows "(of_nat (digits_val (show_nat ip @ strip_zeros (pad_digits k fm))) :: rat) /
            10 ^ length (strip_zeros (pad_digits k fm)) = of_nat ip + of_nat fm / 10 ^ k"
proof -
  let ?f = "strip_zeros (pad_digits k fm)"
  obtain z where z: "length (pad_digits k fm) = length ?f + z"
    "digits_val (pad_digits k fm) = digits_val ?f * 10 ^ z"
    using strip_zeros_value by blast
  have k: "k = length ?f + z" using z(1) by simp
  have fm: "fm = digits_val ?f * 10 ^ z" using z(2) assms by (simp add: digits_val_pad_digits)
  have "(of_nat (digits_val (show_nat ip @ ?f)) :: rat) = of_nat ip * 10 ^ length ?f + of_nat (digits_val ?f)"
    by (simp add: digits_val_append digits_val_show_nat)
  moreover have "(of_nat fm :: rat) / 10 ^ k = of_nat (digits_val ?f) / 10 ^ length ?f"
    by (subst fm, subst k) (simp add: power_add)
  ultimately show ?thesis by (simp add: add_divide_distrib)
qed

lemma stod_fixed:
  assumes "fm < 10 ^ k" "\<not> range_error (of_nat ip + of_nat fm / 10 ^ k)"
  shows "stod (fixed_text ip k fm) = Inr (Finite (round_binary64 (of_nat ip + of_nat fm / 10 ^ k)))"
proof -
  obtain c cs where t: "fixed_text ip k fm = c # cs" and c: "is_digit c"
    using fixed_text_head by blast
  have sk: "skip_space_sign (fixed_text ip k fm) = (False, fixed_text ip k fm)"
    using c digit_not_space_sign [OF c] by (simp add: t skip_space_sign_def)
  have lc: "to_lower c = c" using c by (rule digit_lower)
  have ci: "c \<noteq> CHR ''i''" "c \<noteq> CHR ''n''" using c by (auto simp: is_digit_def)
  have ninf: "\<not> prefix ''inf'' (map to_lower (fixed_text ip k fm))"
    and nnan: "\<not> prefix ''nan'' (map to_lower (fixed_text ip k fm))"
    using ci by (simp_all add: t lc)
  have nohex: "(case fixed_text ip k fm of
                   z # x # t \<Rightarrow> if z = CHR ''0'' \<and> to_lower x = CHR ''x'' then h t else None
                 | _ \<Rightarrow> None) = None" for h :: "string \<Rightarrow> rat option"
  proof (cases cs)
    case Nil
    then show ?thesis by (simp add: t)
  next
    case (Cons x t')
    have "is_numeric x" using fixed_text_numeric [of ip k fm] by (simp add: t Cons)
    then have "to_lower x \<noteq> CHR ''x''"
      by (auto simp: is_numeric_def is_digit_def to_lower_def)
    then show ?thesis by (simp add: t Cons)
  qed
  have ne: "show_nat ip \<noteq> []" by (rule show_nat_nonempty)
  have fin: "strtod_finite (fixed_text ip k fm) = Some (of_nat ip + of_nat fm / 10 ^ k)"
    unfolding strtod_finite_def Let_def nohex
    by (simp add: mantissa_fixed ne exponent_part_def scale10_def fixed_value [OF assms(1)])
  show ?thesis
    using assms(2) by (simp add: stod_def sk ninf nnan fin)
qed

subsection \<open>The text of a double in fixed notation\<close>

lemma rhe_floor: "\<lfloor>q\<rfloor> \<le> round_half_even q \<and> round_half_even q \<le> \<lfloor>q\<rfloor> + 1"
  by (simp add: round_half_even_def Let_def)

lemma rhe_bounds:
  assumes "of_int lo \<le> q" "q < of_int hi"
  shows "lo \<le> round_half_even q" "round_half_even q \<le> hi"
proof -
  have "lo \<le> \<lfloor>q\<rfloor>" using assms(1) by (simp add: le_floor_iff)
  then show "lo \<le> round_half_even q" using rhe_floor [of q] by linarith
  have "\<lfloor>q\<rfloor> < hi" using assms(2) by (simp add: floor_less_iff)
  then show "round_half_even q \<le> hi" using rhe_floor [of q] by linarith
qed

lemma rhe_below_half:
  assumes "q < of_int n + 1 / 2"
  shows "round_half_even q \<le> n"
proof (cases "\<lfloor>q\<rfloor> < n")
  case True
  then show ?thesis using rhe_floor [of q] by linarith
next
  case False
  have "q < of_int (n + 1)" using assms by simp
  then have "\<lfloor>q\<rfloor> < n + 1" by (simp only: floor_less_iff)
  then have f: "\<lfloor>q\<rfloor> = n" using False by linarith
  then have "q - of_int \<lfloor>q\<rfloor> < 1 / 2" using assms by simp
  then show ?thesis using f by (simp add: round_half_even_def Let_def)
qed

lemma fmt_g_fixed:
  assumes lo: "1 \<le> v" and hi: "v < 1999999 / 2"
  shows "\<exists>ip k fm. fm < 10 ^ k \<and> fmt_g v = fixed_text ip k fm \<and>
           of_nat ip + of_nat fm / 10 ^ k = round_sig6 v \<and>
           1 \<le> round_sig6 v \<and> round_sig6 v \<le> 1000000 \<and> k \<le> 5"
proof -
  define n where "n = nat \<lfloor>v\<rfloor>"
  define L where "L = length (show_nat n)"
  define k0 where "k0 = 6 - L"
  define q where "q = v * 10 ^ k0"
  define m0 where "m0 = nat (round_half_even q)"
  have fl: "1 \<le> \<lfloor>v\<rfloor>" using lo by (simp add: le_floor_iff)
  have fh: "\<lfloor>v\<rfloor> < 1000000" using hi by (simp add: floor_less_iff)
  have n1: "0 < n" using fl unfolding n_def by linarith
  have n6: "n < 10 ^ 6" using fl fh unfolding n_def by simp linarith
  have nf: "(of_nat n :: rat) = of_int \<lfloor>v\<rfloor>" using fl by (simp add: n_def)
  have vn: "of_nat n \<le> v" "v < of_nat n + 1"
    unfolding nf using floor_correct [of v] by linarith+
  have L6: "L \<le> 6" unfolding L_def using n6 by (intro length_show_nat_le) auto
  have L1: "1 \<le> L" unfolding L_def using show_nat_nonempty [of n] by (cases "show_nat n") auto
  have nb: "10 ^ (L - 1) \<le> n" "n < 10 ^ L" using show_nat_bounds [OF n1] by (simp_all add: L_def)
  have av: "\<bar>v\<bar> = v" and v0: "v \<noteq> 0" "\<not> v < 0" "sgn v = 1" using lo by simp_all
  have dx: "decimal_exponent v = int L - 1"
    using lo by (simp add: decimal_exponent_def n_def L_def)
  have k5: "5 - (int L - 1) = int k0" using L6 by (simp add: k0_def)
  have sc: "scale10 v (5 - decimal_exponent v) = q"
    unfolding dx k5 by (simp add: scale10_def q_def)
  have Lk: "L - 1 + k0 = 5" "L + k0 = 6" using L1 L6 by (simp_all add: k0_def)
  have "(10 :: rat) ^ (L - 1) * 10 ^ k0 \<le> v * 10 ^ k0"
  proof -
    have "(of_nat (10 ^ (L - 1)) :: rat) \<le> of_nat n" using nb(1) by (simp only: of_nat_le_iff)
    moreover have "(of_nat (10 ^ (L - 1)) :: rat) = 10 ^ (L - 1)" by simp
    ultimately have "(10 :: rat) ^ (L - 1) \<le> v" using vn(1) by linarith
    then show ?thesis by (simp add: mult_right_mono)
  qed
  then have q5: "(100000 :: rat) \<le> q"
    unfolding q_def power_add [symmetric] Lk by simp
  have "v * 10 ^ k0 < (10 :: rat) ^ L * 10 ^ k0"
  proof -
    have "n + 1 \<le> 10 ^ L" using nb(2) by simp
    then have "(of_nat (n + 1) :: rat) \<le> of_nat (10 ^ L)" by (simp only: of_nat_le_iff)
    moreover have "(of_nat (10 ^ L) :: rat) = 10 ^ L" by simp
    moreover have "(of_nat (n + 1) :: rat) = of_nat n + 1" by simp
    ultimately have "v < (10 :: rat) ^ L" using vn(2) by linarith
    then show ?thesis by (simp add: mult_strict_right_mono)
  qed
  then have q6: "q < (1000000 :: rat)"
    unfolding q_def power_add [symmetric] Lk by simp
  have r5: "100000 \<le> round_half_even q" and r6: "round_half_even q \<le> 1000000"
    using rhe_bounds [of 100000 q 1000000] q5 q6 by simp_all
  have m5: "100000 \<le> m0" and m6: "m0 \<le> 1000000" using r5 r6 by (simp_all add: m0_def)
  have rm: "round_half_even q = int m0" using r5 by (simp add: m0_def)
  have rs: "round_sig6 v = of_nat m0 / 10 ^ k0"
  proof -
    have "int L - 1 - 5 = - int k0" using L6 by (simp add: k0_def)
    then show ?thesis
      unfolding round_sig6_def av sc by (simp add: v0 dx rm scale10_def)
  qed
  have rs1: "1 \<le> round_sig6 v"
  proof -
    have "(10 :: rat) ^ k0 \<le> 10 ^ 5" using Lk by (intro power_increasing) auto
    also have "\<dots> \<le> of_nat m0" using m5 by simp
    finally show ?thesis unfolding rs by (simp add: le_divide_eq)
  qed
  have rs6: "round_sig6 v \<le> 1000000"
  proof -
    have "(of_nat m0 :: rat) \<le> 1000000" using m6 by simp
    moreover have "(1 :: rat) \<le> 10 ^ k0" by simp
    ultimately have "(of_nat m0 :: rat) * 1 \<le> 1000000 * 10 ^ k0"
      by (intro mult_mono) auto
    then show ?thesis unfolding rs by (simp add: divide_le_eq)
  qed
  have body: "fmt_g v =
      (let m = (if m0 = 10 ^ 6 then 10 ^ 5 else m0);
           X = (if m0 = 10 ^ 6 then int L - 1 + 1 else int L - 1)
       in if X < - 4 \<or> 6 \<le> X
          then (let frac = strip_zeros (pad_digits 5 (m mod 10 ^ 5))
                in show_nat (m div 10 ^ 5) @ (if frac = [] then [] else CHR ''.'' # frac) @
                   ''e'' @ (if X < 0 then ''-'' else ''+'') @
                   (if \<bar>X\<bar> < 10 then ''0'' else []) @ show_nat (nat \<bar>X\<bar>))
          else (let k = nat (5 - X);
                    frac = strip_zeros (pad_digits k (m mod 10 ^ k))
                in show_nat (m div 10 ^ k) @ (if frac = [] then [] else CHR ''.'' # frac)))"
    unfolding fmt_g_def av sc Let_def by (simp add: v0 dx m0_def [symmetric])
  show ?thesis
  proof (cases "m0 = 10 ^ 6")
    case True
    have "L \<noteq> 6"
    proof
      assume "L = 6"
      then have "q = v" by (simp add: q_def k0_def)
      then have "q < of_int 999999 + 1 / 2" using hi by simp
      then have "round_half_even q \<le> 999999" by (rule rhe_below_half)
      then show False using True rm by simp
    qed
    then have L5: "L \<le> 5" using L6 by simp
    have k: "nat (5 - int L) = 5 - L" by simp
    have p5: "(10 :: nat) ^ 5 = 10 ^ L * 10 ^ (5 - L)" using L5 by (simp add: power_add [symmetric])
    have ip: "(10 :: nat) ^ 5 div 10 ^ (5 - L) = 10 ^ L"
      unfolding p5 by (rule div_mult_self_is_m) simp
    have "(10 :: nat) ^ 5 mod 10 ^ (5 - L) = 0"
      unfolding p5 by (rule mod_mult_self2_is_0)
    then have md: "(100000 :: nat) mod 10 ^ (5 - L) = 0" by simp
    have ft: "fmt_g v = fixed_text (10 ^ 5 div 10 ^ (5 - L)) (5 - L) 0"
      using True L5 by (simp add: body Let_def k md fixed_text_def)
    have "(of_nat m0 :: rat) / 10 ^ k0 = 10 ^ L"
    proof -
      have "(10 :: rat) ^ 6 = 10 ^ L * 10 ^ k0" using Lk by (simp add: power_add [symmetric])
      then have "(1000000 :: rat) = 10 ^ L * 10 ^ k0" by simp
      moreover have "(of_nat m0 :: rat) = 1000000" using True by simp
      ultimately have "(of_nat m0 :: rat) = 10 ^ L * 10 ^ k0" by simp
      moreover have "(10 :: rat) ^ k0 \<noteq> 0" by simp
      ultimately show ?thesis by simp
    qed
    then have "(of_nat (10 ^ 5 div 10 ^ (5 - L)) :: rat) + of_nat 0 / 10 ^ (5 - L) = round_sig6 v"
      unfolding ip rs by simp
    moreover have "(0 :: nat) < 10 ^ (5 - L)" by simp
    moreover have "5 - L \<le> 5" by simp
    ultimately show ?thesis using ft rs1 rs6 by blast
  next
    case False
    have k: "nat (5 - (int L - 1)) = k0" "nat (6 - int L) = k0" using L6 by (simp_all add: k0_def)
    have ft: "fmt_g v = fixed_text (m0 div 10 ^ k0) k0 (m0 mod 10 ^ k0)"
      using False L1 L6 by (simp add: body Let_def k fixed_text_def)
    have e: "m0 div 10 ^ k0 * 10 ^ k0 + m0 mod 10 ^ k0 = m0" by (rule div_mult_mod_eq)
    have "(of_nat (m0 div 10 ^ k0) :: rat) * 10 ^ k0 + of_nat (m0 mod 10 ^ k0) = of_nat m0"
      using arg_cong [OF e, of "of_nat :: nat \<Rightarrow> rat"] by simp
    then have "(of_nat (m0 div 10 ^ k0) :: rat) + of_nat (m0 mod 10 ^ k0) / 10 ^ k0 = of_nat m0 / 10 ^ k0"
      by (simp add: field_simps)
    then have "(of_nat (m0 div 10 ^ k0) :: rat) + of_nat (m0 mod 10 ^ k0) / 10 ^ k0 = round_sig6 v"
      unfolding rs .
    moreover have "m0 mod 10 ^ k0 < 10 ^ k0" by simp
    moreover have "k0 \<le> 5" using L1 by (simp add: k0_def)
    ultimately show ?thesis using ft rs1 rs6 by blast
  qed
qed

lemma stod_fmt_g:
  assumes "1 \<le> v" "v < 1999999 / 2"
  shows "stod (fmt_g v) = Inr (Finite (round_binary64 (round_sig6 v)))"
    and "\<forall>c\<in>set (fmt_g v). is_numeric c"
    and "length (fmt_g v) \<le> 13"
proof -
  obtain ip k fm where f: "fm < 10 ^ k" "fmt_g v = fixed_text ip k fm"
    "of_nat ip + of_nat fm / 10 ^ k = round_sig6 v" "1 \<le> round_sig6 v" "round_sig6 v \<le> 1000000"
    "k \<le> 5"
    using fmt_g_fixed [OF assms] by blast
  have "\<not> range_error (round_sig6 v)" using f(4,5) by (intro range_ok) auto
  then show "stod (fmt_g v) = Inr (Finite (round_binary64 (round_sig6 v)))"
    using stod_fixed [OF f(1)] f(2,3) by simp
  show "\<forall>c\<in>set (fmt_g v). is_numeric c" unfolding f(2) by (rule fixed_text_numeric)
  have ipb: "(of_nat ip :: rat) \<le> 1000000"
  proof -
    have "(0 :: rat) \<le> of_nat fm / 10 ^ k" by simp
    then show ?thesis using f(3,5) by linarith
  qed
  then have "ip \<le> 1000000" by (simp only: of_nat_le_iff [where ?'a = rat, symmetric] of_nat_numeral)
  then have "length (show_nat ip) \<le> 7" by (intro length_show_nat_le) auto
  moreover have "length (strip_zeros (pad_digits k fm)) \<le> k"
    using strip_zeros_value [of "pad_digits k fm"] by auto
  ultimately show "length (fmt_g v) \<le> 13"
    unfolding f(2) using f(6) by (simp add: fixed_text_def)
qed

subsection \<open>Positions of the tags in a payload\<close>

lemma first_occurrence_skip:
  "p \<notin> set xs \<Longrightarrow>
   first_occurrence (p # ps) (xs @ s) = map_option (\<lambda>i. i + length xs) (first_occurrence (p # ps) s)"
  by (induction xs) (auto simp: option.map_comp comp_def option.map_ident)

lemma numeric_not_letter:
  "is_numeric c \<Longrightarrow> c \<noteq> CHR ''S'' \<and> c \<noteq> CHR ''C'' \<and> c \<noteq> CHR ''T'' \<and> c \<noteq> CHR ''Z''"
  by (auto simp: is_numeric_def is_digit_def)

lemma numeric_no_letters:
  assumes "\<forall>c\<in>set xs. is_numeric c"
  shows "CHR ''S'' \<notin> set xs" "CHR ''C'' \<notin> set xs" "CHR ''T'' \<notin> set xs" "CHR ''Z'' \<notin> set xs"
  using assms numeric_not_letter by blast+

lemma digits_numeric: "\<forall>c\<in>set xs. is_digit c \<Longrightarrow> \<forall>c\<in>set xs. is_numeric c"
  by (simp add: is_numeric_def)

lemma find_flat:
  assumes "\<forall>c\<in>set d1. is_numeric c" "\<forall>c\<in>set d2. is_numeric c" "\<forall>c\<in>set t. is_numeric c"
  shows "first_occurrence ''SENSOR:'' (''SENSOR:'' @ d1 @ '',COMPANY:'' @ d2 @ '',CO2:'' @ t @ '',TIME:'' @ d4) = Some 0"
    and "first_occurrence ''COMPANY:'' (''SENSOR:'' @ d1 @ '',COMPANY:'' @ d2 @ '',CO2:'' @ t @ '',TIME:'' @ d4) =
           Some (8 + length d1)"
    and "first_occurrence ''CO2:'' (''SENSOR:'' @ d1 @ '',COMPANY:'' @ d2 @ '',CO2:'' @ t @ '',TIME:'' @ d4) =
           Some (17 + length d1 + length d2)"
    and "first_occurrence ''TIME:'' (''SENSOR:'' @ d1 @ '',COMPANY:'' @ d2 @ '',CO2:'' @ t @ '',TIME:'' @ d4) =
           Some (22 + length d1 + length d2 + length t)"
  using numeric_no_letters [OF assms(1)] numeric_no_letters [OF assms(2)] numeric_no_letters [OF assms(3)]
  by (simp_all add: first_occurrence_skip)

lemma find_hier:
  assumes "\<forall>c\<in>set d1. is_numeric c" "\<forall>c\<in>set d2. is_numeric c"
  shows "first_occurrence ''SENSOR:'' (''SENSOR:'' @ d1 @ '',ZONE:'' @ d2 @ '',CO2:'' @ t) = Some 0"
    and "first_occurrence ''ZONE:'' (''SENSOR:'' @ d1 @ '',ZONE:'' @ d2 @ '',CO2:'' @ t) = Some (8 + length d1)"
    and "first_occurrence ''CO2:'' (''SENSOR:'' @ d1 @ '',ZONE:'' @ d2 @ '',CO2:'' @ t) =
           Some (14 + length d1 + length d2)"
  using numeric_no_letters [OF assms(1)] numeric_no_letters [OF assms(2)]
  by (simp_all add: first_occurrence_skip)

subsection \<open>Decoding a payload made of numbers\<close>

lemma unat_of_nat_64: "n < 2 ^ 64 \<Longrightarrow> unat (of_nat n :: size_t) = n"
  by (simp add: unat_of_nat take_bit_nat_eq_self)

lemma of_nat_not_npos: "n < 1000 \<Longrightarrow> (of_nat n :: size_t) \<noteq> npos"
proof
  assume n: "n < 1000" and e: "(of_nat n :: size_t) = npos"
  have "unat (of_nat n :: size_t) = n" using n by (intro unat_of_nat_64) simp
  moreover have "unat npos = 18446744073709551615" by (simp add: npos_def unat_minus_one_64)
  ultimately show False using n e by simp
qed

lemma substr_field:
  "unat pos = length pre \<Longrightarrow> unat len = length field \<Longrightarrow>
   substr (pre @ field @ post) pos len = Inr field"
  by (simp add: substr_def)

lemma substr_tail:
  "unat pos = length pre \<Longrightarrow> length field \<le> 1000 \<Longrightarrow>
   substr (pre @ field) pos npos = Inr field"
  by (simp add: substr_def npos_def unat_minus_one_64)

lemma Decode_flat_payload:
  assumes n: "\<forall>c\<in>set d1. is_numeric c" "\<forall>c\<in>set d2. is_numeric c" "\<forall>c\<in>set t. is_numeric c"
    and l: "length d1 \<le> 20" "length d2 \<le> 20" "length t \<le> 20" "length d4 \<le> 20"
    and p: "stoi d1 = Inr i1" "stoi d2 = Inr i2" "stod t = Inr c" "stoull d4 = Inr ts"
  shows "Decode_flat (''SENSOR:'' @ d1 @ '',COMPANY:'' @ d2 @ '',CO2:'' @ t @ '',TIME:'' @ d4) =
           Inr (Reading \<lparr>r_sensorId = word_of_int i1, r_companyId = word_of_int i2,
                          r_co2Value = c, r_timestamp = ts\<rparr>)"
proof -
  let ?data = "''SENSOR:'' @ d1 @ '',COMPANY:'' @ d2 @ '',CO2:'' @ t @ '',TIME:'' @ d4"
  have pos: "find_str ?data ''SENSOR:'' = 0"
    "find_str ?data ''COMPANY:'' = of_nat (8 + length d1)"
    "find_str ?data ''CO2:'' = of_nat (17 + length d1 + length d2)"
    "find_str ?data ''TIME:'' = of_nat (22 + length d1 + length d2 + length t)"
    unfolding find_str_def find_flat [OF n] by simp_all
  have np: "(0 :: size_t) \<noteq> npos" "(of_nat (8 + length d1) :: size_t) \<noteq> npos"
    "(of_nat (17 + length d1 + length d2) :: size_t) \<noteq> npos"
    "(of_nat (22 + length d1 + length d2 + length t) :: size_t) \<noteq> npos"
    using l by (simp add: npos_def, (intro of_nat_not_npos, simp)+)
  have s1: "substr ?data (0 + 7) (of_nat (8 + length d1) - 0 - 8) = Inr d1"
  proof -
    have "unat (of_nat (length d1) :: size_t) = length d1" using l by (intro unat_of_nat_64) simp
    then show ?thesis
      using substr_field [of "0 + 7" "''SENSOR:''" "of_nat (length d1)" d1
          "'',COMPANY:'' @ d2 @ '',CO2:'' @ t @ '',TIME:'' @ d4"]
      by simp
  qed
  have s2: "substr ?data (of_nat (8 + length d1) + 8)
              (of_nat (17 + length d1 + length d2) - of_nat (8 + length d1) - 9) = Inr d2"
  proof -
    have a: "unat (of_nat (length d2) :: size_t) = length d2" using l by (intro unat_of_nat_64) simp
    have b: "unat (of_nat (16 + length d1) :: size_t) = 16 + length d1" using l by (intro unat_of_nat_64) simp
    have c: "(of_nat (8 + length d1) + 8 :: size_t) = of_nat (16 + length d1)" by simp
    have d: "(of_nat (17 + length d1 + length d2) - of_nat (8 + length d1) - 9 :: size_t) = of_nat (length d2)"
      by simp
    show ?thesis
      unfolding c d
      using substr_field [of "of_nat (16 + length d1)" "''SENSOR:'' @ d1 @ '',COMPANY:''" "of_nat (length d2)" d2
          "'',CO2:'' @ t @ '',TIME:'' @ d4"] a b
      by simp
  qed
  have s3: "substr ?data (of_nat (17 + length d1 + length d2) + 4)
              (of_nat (22 + length d1 + length d2 + length t) - of_nat (17 + length d1 + length d2) - 5) = Inr t"
  proof -
    have a: "unat (of_nat (length t) :: size_t) = length t" using l by (intro unat_of_nat_64) simp
    have b: "unat (of_nat (21 + length d1 + length d2) :: size_t) = 21 + length d1 + length d2"
      using l by (intro unat_of_nat_64) simp
    have c: "(of_nat (17 + length d1 + length d2) + 4 :: size_t) = of_nat (21 + length d1 + length d2)" by simp
    have d: "(of_nat (22 + length d1 + length d2 + length t) - of_nat (17 + length d1 + length d2) - 5 :: size_t) =
               of_nat (length t)"
      by simp
    show ?thesis
      unfolding c d
      using substr_field [of "of_nat (21 + length d1 + length d2)"
          "''SENSOR:'' @ d1 @ '',COMPANY:'' @ d2 @ '',CO2:''" "of_nat (length t)" t "'',TIME:'' @ d4"] a b
      by simp
  qed
  have s4: "substr ?data (of_nat (22 + length d1 + length d2 + length t) + 5) npos = Inr d4"
  proof -
    have b: "unat (of_nat (27 + length d1 + length d2 + length t) :: size_t) = 27 + length d1 + length d2 + length t"
      using l by (intro unat_of_nat_64) simp
    have c: "(of_nat (22 + length d1 + length d2 + length t) + 5 :: size_t) =
               of_nat (27 + length d1 + length d2 + length t)" by simp
    show ?thesis
      unfolding c
      using substr_tail [of "of_nat (27 + length d1 + length d2 + length t)"
          "''SENSOR:'' @ d1 @ '',COMPANY:'' @ d2 @ '',CO2:'' @ t @ '',TIME:''" d4] b l
      by simp
  qed
  show ?thesis
    unfolding Decode_flat_def Let_def pos
    by (simp only: np s1 s2 s3 s4 p bind_fault_def sum.case simp_thms if_True)
qed

lemma Decode_hier_payload:
  assumes n: "\<forall>c\<in>set d1. is_numeric c" "\<forall>c\<in>set d2. is_numeric c"
    and l: "length d1 \<le> 20" "length d2 \<le> 20" "length t \<le> 20"
    and p: "stoi d1 = Inr i1" "stoi d2 = Inr i2" "stod t = Inr c"
  shows "Decode_hier (''SENSOR:'' @ d1 @ '',ZONE:'' @ d2 @ '',CO2:'' @ t) =
           Inr (Reading \<lparr>z_sensorId = word_of_int i1, z_zoneId = word_of_int i2, z_co2Value = c\<rparr>)"
proof -
  let ?data = "''SENSOR:'' @ d1 @ '',ZONE:'' @ d2 @ '',CO2:'' @ t"
  have pos: "find_str ?data ''SENSOR:'' = 0"
    "find_str ?data ''ZONE:'' = of_nat (8 + length d1)"
    "find_str ?data ''CO2:'' = of_nat (14 + length d1 + length d2)"
    unfolding find_str_def find_hier [OF n] by simp_all
  have np: "(0 :: size_t) \<noteq> npos" "(of_nat (8 + length d1) :: size_t) \<noteq> npos"
    "(of_nat (14 + length d1 + length d2) :: size_t) \<noteq> npos"
    using l by (simp add: npos_def, (intro of_nat_not_npos, simp)+)
  have s1: "substr ?data (0 + 7) (of_nat (8 + length d1) - 0 - 8) = Inr d1"
  proof -
    have "unat (of_nat (length d1) :: size_t) = length d1" using l by (intro unat_of_nat_64) simp
    then show ?thesis
      using substr_field [of "0 + 7" "''SENSOR:''" "of_nat (length d1)" d1
          "'',ZONE:'' @ d2 @ '',CO2:'' @ t"]
      by simp
  qed
  have s2: "substr ?data (of_nat (8 + length d1) + 5)
              (of_nat (14 + length d1 + length d2) - of_nat (8 + length d1) - 6) = Inr d2"
  proof -
    have a: "unat (of_nat (length d2) :: size_t) = length d2" using l by (intro unat_of_nat_64) simp
    have b: "unat (of_nat (13 + length d1) :: size_t) = 13 + length d1" using l by (intro unat_of_nat_64) simp
    have c: "(of_nat (8 + length d1) + 5 :: size_t) = of_nat (13 + length d1)" by simp
    have d: "(of_nat (14 + length d1 + length d2) - of_nat (8 + length d1) - 6 :: size_t) = of_nat (length d2)"
      by simp
    show ?thesis
      unfolding c d
      using substr_field [of "of_nat (13 + length d1)" "''SENSOR:'' @ d1 @ '',ZONE:''" "of_nat (length d2)" d2
          "'',CO2:'' @ t"] a b
      by simp
  qed
  have s3: "substr ?data (of_nat (14 + length d1 + length d2) + 4) npos = Inr t"
  proof -
    have b: "unat (of_nat (18 + length d1 + length d2) :: size_t) = 18 + length d1 + length d2"
      using l by (intro unat_of_nat_64) simp
    have c: "(of_nat (14 + length d1 + length d2) + 4 :: size_t) = of_nat (18 + length d1 + length d2)" by simp
    show ?thesis
      unfolding c
      using substr_tail [of "of_nat (18 + length d1 + length d2)"
          "''SENSOR:'' @ d1 @ '',ZONE:'' @ d2 @ '',CO2:''" t] b l
      by simp
  qed
  show ?thesis
    unfolding Decode_hier_def Let_def pos
    by (simp only: np s1 s2 s3 p bind_fault_def sum.case simp_thms if_True)
qed

lemma show_id:
  fixes w :: uint32
  assumes "unat w < 2 ^ 31"
  shows "stoi (show_nat (unat w)) = Inr (int (unat w))"
    and "\<forall>c\<in>set (show_nat (unat w)). is_numeric c"
    and "length (show_nat (unat w)) \<le> 20"
    and "(word_of_int (int (unat w)) :: uint32) = w"
proof -
  show "stoi (show_nat (unat w)) = Inr (int (unat w))" using assms by (intro stoi_show_nat) simp
  show "\<forall>c\<in>set (show_nat (unat w)). is_numeric c" by (intro digits_numeric show_nat_digits)
  have "unat w < 10 ^ 20" using assms by simp
  then show "length (show_nat (unat w)) \<le> 20" by (intro length_show_nat_le) simp_all
  show "(word_of_int (int (unat w)) :: uint32) = w" by simp
qed

lemma show_timestamp:
  fixes ts :: uint64
  shows "stoull (show_nat (unat ts)) = Inr ts"
    and "length (show_nat (unat ts)) \<le> 20"
proof -
  have b: "unat ts < 2 ^ 64" using unsigned_less [of ts] by simp
  then have "stoull (show_nat (unat ts)) = Inr (of_nat (unat ts))" by (intro stoull_show_nat) simp
  then show "stoull (show_nat (unat ts)) = Inr ts" by simp
  have "unat ts < 10 ^ 20" using b by simp
  then show "length (show_nat (unat ts)) \<le> 20" by (intro length_show_nat_le) simp_all
qed

lemma Decode_flat_encode:
  assumes "unat sid < 2 ^ 31" "unat gid < 2 ^ 31" "1 \<le> v" "v < 1999999 / 2"
  shows "Decode_flat (payload_flat sid gid (Finite v) ts) =
           Inr (Reading \<lparr>r_sensorId = sid, r_companyId = gid,
                          r_co2Value = Finite (round_binary64 (round_sig6 v)), r_timestamp = ts\<rparr>)"
proof -
  have lt: "length (fmt_g v) \<le> 20" using stod_fmt_g(3) [OF assms(3,4)] by simp
  show ?thesis
    unfolding payload_flat_def show_double_def double.case
    using Decode_flat_payload [OF show_id(2) [OF assms(1)] show_id(2) [OF assms(2)]
        stod_fmt_g(2) [OF assms(3,4)] show_id(3) [OF assms(1)] show_id(3) [OF assms(2)] lt
        show_timestamp(2) [of ts] show_id(1) [OF assms(1)] show_id(1) [OF assms(2)]
        stod_fmt_g(1) [OF assms(3,4)] show_timestamp(1) [of ts]]
    by (simp only: show_id(4) [OF assms(1)] show_id(4) [OF assms(2)])
qed

lemma Decode_hier_encode:
  assumes "unat sid < 2 ^ 31" "unat gid < 2 ^ 31" "1 \<le> v" "v < 1999999 / 2"
  shows "Decode_hier (payload_hier sid gid (Finite v)) =
           Inr (Reading \<lparr>z_sensorId = sid, z_zoneId = gid,
                          z_co2Value = Finite (round_binary64 (round_sig6 v))\<rparr>)"
proof -
  have lt: "length (fmt_g v) \<le> 20" using stod_fmt_g(3) [OF assms(3,4)] by simp
  show ?thesis
    unfolding payload_hier_def show_double_def double.case
    using Decode_hier_payload [OF show_id(2) [OF assms(1)] show_id(2) [OF assms(2)]
        show_id(3) [OF assms(1)] show_id(3) [OF assms(2)] lt
        show_id(1) [OF assms(1)] show_id(1) [OF assms(2)] stod_fmt_g(1) [OF assms(3,4)]]
    by (simp only: show_id(4) [OF assms(1)] show_id(4) [OF assms(2)])
qed

subsection \<open>Decoding what was encoded\<close>

lemma scale10_inverse: "scale10 (scale10 a k) (- k) = a"
  by (simp add: scale10_def)

lemma round_half_even_int: "round_half_even (of_int n) = n"
  by (simp add: round_half_even_def)

lemma round_sig6_exact:
  assumes "of_int n = scale10 \<bar>v\<bar> (5 - decimal_exponent \<bar>v\<bar>)"
  shows "round_sig6 v = v"
proof (cases "v = 0")
  case True
  then show ?thesis by (simp add: round_sig6_def)
next
  case False
  have "scale10 (of_int n) (decimal_exponent \<bar>v\<bar> - 5) = \<bar>v\<bar>"
    unfolding assms using scale10_inverse [of "\<bar>v\<bar>" "5 - decimal_exponent \<bar>v\<bar>"] by simp
  then have "round_sig6 v = sgn v * \<bar>v\<bar>"
    using False unfolding round_sig6_def assms [symmetric] round_half_even_int by simp
  then show ?thesis by (simp only: sgn_mult_abs)
qed

lemma floor_numeral_frac: "\<lfloor>(numeral a :: rat) / numeral b\<rfloor> = numeral a div numeral b"
  using floor_divide_of_int_eq [of "numeral a" "numeral b", where ?'a = rat] by simp

lemma digit_char_eval:
  "digit_char 0 = CHR ''0''" "digit_char 1 = CHR ''1''" "digit_char 2 = CHR ''2''"
  "digit_char 3 = CHR ''3''" "digit_char 4 = CHR ''4''" "digit_char 5 = CHR ''5''"
  "digit_char 6 = CHR ''6''" "digit_char 7 = CHR ''7''" "digit_char 8 = CHR ''8''"
  "digit_char 9 = CHR ''9''" "digit_char (Suc 0) = CHR ''1''"
  by (simp_all add: digit_char_def char_of_def bit_iff_odd)

lemma pad_digits_numeral:
  "pad_digits (numeral k) n = pad_digits (pred_numeral k) (n div 10) @ [digit_char (n mod 10)]"
  using pad_digits.simps(2) [of "pred_numeral k" n] by (simp only: numeral_eq_Suc)

lemma decimal_exponent_400: "decimal_exponent (801 / 2) = 2"
  "decimal_exponent (51201 / 128) = 2"
  "decimal_exponent (7037015155254755 / 17592186044416) = 2"
  by (simp_all add: decimal_exponent_def show_nat.simps floor_numeral_frac)

lemma round_half_even_400: "round_half_even (6400125 / 16) = 400008"
  "round_half_even (879626894406844375 / 2199023255552) = 400008"
  by (simp_all add: round_half_even_def floor_numeral_frac Let_def)

lemma round_sig6_400_5: "round_sig6 (801 / 2) = 801 / 2"
  by (rule round_sig6_exact [of 400500]) (simp add: decimal_exponent_400 scale10_def)

lemma round_sig6_400_0078125: "round_sig6 (51201 / 128) = 50001 / 125"
  by (simp add: round_sig6_def decimal_exponent_400 scale10_def round_half_even_400)

lemma round_sig6_nearest_400_008: "round_sig6 (7037015155254755 / 17592186044416) = 50001 / 125"
  by (simp add: round_sig6_def decimal_exponent_400 scale10_def round_half_even_400)

lemma binary_exponent_400: "binary_exponent (801 / 2) = 8" "binary_exponent (50001 / 125) = 8"
  by (simp_all add: binary_exponent_def bit_length.simps floor_numeral_frac)

lemma round_binary64_400_5: "round_binary64 (801 / 2) = 801 / 2"
  by (simp add: round_binary64_def round_at_def binary_exponent_400 scale2_def round_half_even_def
      floor_numeral_frac Let_def)

lemma round_binary64_400_008:
  "round_binary64 (50001 / 125) = 7037015155254755 / 17592186044416"
  by (simp add: round_binary64_def round_at_def binary_exponent_400 scale2_def round_half_even_def
      floor_numeral_frac Let_def)

lemma fmt_g_400_0078125: "fmt_g (51201 / 128) = ''400.008''"
  by (simp add: fmt_g_def decimal_exponent_400 scale10_def round_half_even_400 Let_def strip_zeros_def
      show_nat.simps digit_char_eval pad_digits_numeral)

lemma payload_400_0078125:
  "payload_flat 1 1 (Finite (51201 / 128)) 0 = ''SENSOR:1,COMPANY:1,CO2:400.008,TIME:0''"
  "payload_hier 1 1 (Finite (51201 / 128)) = ''SENSOR:1,ZONE:1,CO2:400.008''"
  by (simp_all add: payload_flat_def payload_hier_def show_double_def fmt_g_400_0078125
      show_nat.simps digit_char_eval)

text \<open>
  Claim C1, as amended. For a sensor id and a group id below \<open>2 ^ 31\<close>, any time stamp
  and a CO2 value \<open>v\<close> with \<open>1 \<le> v < 999999.5\<close> (every generated reading lies in
  \<open>[300, 3000]\<close>), decoding the encoded payload returns, in both scenarios, the reading
  with the ids and the time stamp it had and, as its CO2 value, the binary64 value
  nearest to \<open>v\<close> rounded to six significant decimal digits. The decoded reading is
  the encoded one if and only if \<open>v\<close> is that binary64 value.
\<close>

theorem round_trip:
  assumes "unat sensorId < 2 ^ 31" and "unat groupId < 2 ^ 31"
    and "1 \<le> co2Value" and "co2Value < 1999999 / 2"
  shows "Decode_flat (payload_flat sensorId groupId (Finite co2Value) timestamp) =
           Inr (Reading \<lparr>r_sensorId = sensorId, r_companyId = groupId,
                          r_co2Value = Finite (round_binary64 (round_sig6 co2Value)),
                          r_timestamp = timestamp\<rparr>) \<and>
         Decode_hier (payload_hier sensorId groupId (Finite co2Value)) =
           Inr (Reading \<lparr>z_sensorId = sensorId, z_zoneId = groupId,
                          z_co2Value = Finite (round_binary64 (round_sig6 co2Value))\<rparr>) \<and>
         (Decode_flat (payload_flat sensorId groupId (Finite co2Value) timestamp) =
            Inr (Reading \<lparr>r_sensorId = sensorId, r_companyId = groupId,
                           r_co2Value = Finite co2Value, r_timestamp = timestamp\<rparr>)) =
           (round_binary64 (round_sig6 co2Value) = co2Value) \<and>
         (Decode_hier (payload_hier sensorId groupId (Finite co2Value)) =
            Inr (Reading \<lparr>z_sensorId = sensorId, z_zoneId = groupId,
                           z_co2Value = Finite co2Value\<rparr>)) =
           (round_binary64 (round_sig6 co2Value) = co2Value)"
  unfolding Decode_flat_encode [OF assms] Decode_hier_encode [OF assms] by simp

theorem round_trip_witness:
  "unat (3 :: uint32) < 2 ^ 31 \<and> unat (2 :: uint32) < 2 ^ 31 \<and> (1 :: rat) \<le> 801 / 2 \<and>
   (801 / 2 :: rat) < 1999999 / 2 \<and>
   (1 :: rat) \<le> 7037015155254755 / 17592186044416 \<and>
   (7037015155254755 / 17592186044416 :: rat) < 1999999 / 2 \<and>
   Decode_flat (payload_flat 3 2 (Finite (801 / 2)) 5000000) =
     Inr (Reading \<lparr>r_sensorId = 3, r_companyId = 2, r_co2Value = Finite (801 / 2),
                    r_timestamp = 5000000\<rparr>) \<and>
   Decode_hier (payload_hier 3 2 (Finite (801 / 2))) =
     Inr (Reading \<lparr>z_sensorId = 3, z_zoneId = 2, z_co2Value = Finite (801 / 2)\<rparr>) \<and>
   Decode_flat (payload_flat 3 2 (Finite (7037015155254755 / 17592186044416)) 5000000) =
     Inr (Reading \<lparr>r_sensorId = 3, r_companyId = 2,
                    r_co2Value = Finite (7037015155254755 / 17592186044416),
                    r_timestamp = 5000000\<rparr>) \<and>
   Decode_hier (payload_hier 3 2 (Finite (7037015155254755 / 17592186044416))) =
     Inr (Reading \<lparr>z_sensorId = 3, z_zoneId = 2,
                    z_co2Value = Finite (7037015155254755 / 17592186044416)\<rparr>)"
  using round_trip [of 3 2 "801 / 2" 5000000]
    round_trip [of 3 2 "7037015155254755 / 17592186044416" 5000000]
  by (simp add: round_sig6_400_5 round_binary64_400_5 round_sig6_nearest_400_008
      round_binary64_400_008)

text \<open>
  The binary64 value \<open>400.0078125\<close>, within \<open>[300, 3000]\<close>, is written as \<open>400.008\<close>
  and is read back as the binary64 value nearest to \<open>400.008\<close>, which is
  \<open>7037015155254755 / 2 ^ 44\<close>: the decoded reading is not the encoded one.
\<close>

theorem round_trip_loses_digits:
  "payload_flat 1 1 (Finite (51201 / 128)) 0 = ''SENSOR:1,COMPANY:1,CO2:400.008,TIME:0'' \<and>
   Decode_flat (payload_flat 1 1 (Finite (51201 / 128)) 0) =
     Inr (Reading \<lparr>r_sensorId = 1, r_companyId = 1,
                    r_co2Value = Finite (7037015155254755 / 17592186044416), r_timestamp = 0\<rparr>) \<and>
   Decode_flat (payload_flat 1 1 (Finite (51201 / 128)) 0) \<noteq>
     Inr (Reading \<lparr>r_sensorId = 1, r_companyId = 1, r_co2Value = Finite (51201 / 128),
                    r_timestamp = 0\<rparr>) \<and>
   payload_hier 1 1 (Finite (51201 / 128)) = ''SENSOR:1,ZONE:1,CO2:400.008'' \<and>
   Decode_hier (payload_hier 1 1 (Finite (51201 / 128))) =
     Inr (Reading \<lparr>z_sensorId = 1, z_zoneId = 1,
                    z_co2Value = Finite (7037015155254755 / 17592186044416)\<rparr>) \<and>
   Decode_hier (payload_hier 1 1 (Finite (51201 / 128))) \<noteq>
     Inr (Reading \<lparr>z_sensorId = 1, z_zoneId = 1, z_co2Value = Finite (51201 / 128)\<rparr>)"
proof -
  have f: "Decode_flat (payload_flat 1 1 (Finite (51201 / 128)) 0) =
     Inr (Reading \<lparr>r_sensorId = 1, r_companyId = 1,
                    r_co2Value = Finite (7037015155254755 / 17592186044416), r_timestamp = 0\<rparr>)"
    using Decode_flat_encode [of 1 1 "51201 / 128" 0]
    by (simp add: round_sig6_400_0078125 round_binary64_400_008)
  have h: "Decode_hier (payload_hier 1 1 (Finite (51201 / 128))) =
     Inr (Reading \<lparr>z_sensorId = 1, z_zoneId = 1,
                    z_co2Value = Finite (7037015155254755 / 17592186044416)\<rparr>)"
    using Decode_hier_encode [of 1 1 "51201 / 128"]
    by (simp add: round_sig6_400_0078125 round_binary64_400_008)
  have f': "Decode_flat ''SENSOR:1,COMPANY:1,CO2:400.008,TIME:0'' =
     Inr (Reading \<lparr>r_sensorId = 1, r_companyId = 1,
                    r_co2Value = Finite (7037015155254755 / 17592186044416), r_timestamp = 0\<rparr>)"
    using f unfolding payload_400_0078125 .
  have h': "Decode_hier ''SENSOR:1,ZONE:1,CO2:400.008'' =
     Inr (Reading \<lparr>z_sensorId = 1, z_zoneId = 1,
                    z_co2Value = Finite (7037015155254755 / 17592186044416)\<rparr>)"
    using h unfolding payload_400_0078125 .
  show ?thesis unfolding payload_400_0078125 f' h' by simp
qed

end
